theory Spec2Isabelle
  imports Main "HOL-Library.Sublist"
begin

section \<open>Python strings\<close>

text \<open>
  A Python \<open>str\<close> is a sequence of Unicode code points; \<open>len\<close>, slicing, \<open>in\<close> and the
  \<open>re\<close> module all count code points. A code point is a natural number here and a
  string is a list of them. \<open>ascii\<close> reads an ASCII literal of the source.
\<close>

type_synonym codepoint = nat
type_synonym pystr = "codepoint list"

definition ascii :: "string \<Rightarrow> pystr" where
  "ascii s = map of_char s"

text \<open>
  The repository does not contain Python's Unicode character database. What the code
  asks of it beyond the ASCII range is a parameter of the model: the upper-casing of a
  code point (\<open>str.upper\<close> works code point by code point and may yield several),
  the lower-casing of the code point at an index of a string (\<open>str.lower\<close> looks at the
  context of a capital sigma), the alphanumeric code points (for \<open>\w\<close> and \<open>\b\<close>), and
  which code points a letter of a pattern matches under \<open>re.IGNORECASE\<close>. Inside the
  ASCII range the behaviour is fixed below. Every theorem holds for every such database.
\<close>

record unicode_db =
  uni_upper :: "codepoint \<Rightarrow> pystr"
  uni_lower :: "pystr \<Rightarrow> nat \<Rightarrow> pystr"
  uni_alnum :: "codepoint \<Rightarrow> bool"
  uni_ignorecase :: "codepoint \<Rightarrow> codepoint \<Rightarrow> bool"

text \<open>A database in which no code point beyond ASCII has case or is alphanumeric.\<close>

definition caseless_db :: unicode_db where
  "caseless_db = \<lparr> uni_upper = (\<lambda>c. [c]), uni_lower = (\<lambda>s i. [s ! i]),
     uni_alnum = (\<lambda>c. False), uni_ignorecase = (\<lambda>p c. False) \<rparr>"

text \<open>
  \<open>str.isspace\<close> of one code point, which is also \<open>\s\<close> of a \<open>str\<close> pattern and what
  \<open>str.strip()\<close> removes: the complete list of CPython's \<open>_PyUnicode_IsWhitespace\<close>.
\<close>

definition py_isspace :: "codepoint \<Rightarrow> bool" where
  "py_isspace c \<longleftrightarrow>
     (9 \<le> c \<and> c \<le> 13) \<or> (28 \<le> c \<and> c \<le> 32) \<or> c = 133 \<or> c = 160 \<or> c = 5760
     \<or> (8192 \<le> c \<and> c \<le> 8202) \<or> c = 8232 \<or> c = 8233 \<or> c = 8239 \<or> c = 8287
     \<or> c = 12288"

definition ascii_upper :: "codepoint \<Rightarrow> codepoint" where
  "ascii_upper c = (if 97 \<le> c \<and> c \<le> 122 then c - 32 else c)"

definition ascii_lower :: "codepoint \<Rightarrow> codepoint" where
  "ascii_lower c = (if 65 \<le> c \<and> c \<le> 90 then c + 32 else c)"

definition ascii_alnum :: "codepoint \<Rightarrow> bool" where
  "ascii_alnum c \<longleftrightarrow> (48 \<le> c \<and> c \<le> 57) \<or> (65 \<le> c \<and> c \<le> 90) \<or> (97 \<le> c \<and> c \<le> 122)"

definition upper_char :: "unicode_db \<Rightarrow> codepoint \<Rightarrow> pystr" where
  "upper_char U c = (if c < 128 then [ascii_upper c] else uni_upper U c)"

definition py_upper :: "unicode_db \<Rightarrow> pystr \<Rightarrow> pystr" where
  "py_upper U s = concat (map (upper_char U) s)"

fun lower_from :: "unicode_db \<Rightarrow> pystr \<Rightarrow> nat \<Rightarrow> pystr \<Rightarrow> pystr" where
  "lower_from U s i [] = []"
| "lower_from U s i (c # cs) =
     (if c < 128 then [ascii_lower c] else uni_lower U s i) @ lower_from U s (Suc i) cs"

definition py_lower :: "unicode_db \<Rightarrow> pystr \<Rightarrow> pystr" where
  "py_lower U s = lower_from U s 0 s"

text \<open>
  \<open>\w\<close>: alphanumeric or underscore. No Unicode whitespace character is alphanumeric;
  the model keeps the two classes disjoint for every database.
\<close>

definition is_word :: "unicode_db \<Rightarrow> codepoint \<Rightarrow> bool" where
  "is_word U c \<longleftrightarrow>
     (if c < 128 then ascii_alnum c \<or> c = 95 else uni_alnum U c \<and> \<not> py_isspace c)"

definition lstrip :: "pystr \<Rightarrow> pystr" where
  "lstrip s = dropWhile py_isspace s"

definition rstrip :: "pystr \<Rightarrow> pystr" where
  "rstrip s = rev (dropWhile py_isspace (rev s))"

definition strip :: "pystr \<Rightarrow> pystr" where
  "strip s = rstrip (lstrip s)"

text \<open>\<open>str.startswith\<close> and the substring test \<open>pat in s\<close>.\<close>

fun startswith :: "pystr \<Rightarrow> pystr \<Rightarrow> bool" where
  "startswith s [] = True"
| "startswith [] (p # ps) = False"
| "startswith (c # cs) (p # ps) = (c = p \<and> startswith cs ps)"

fun contains :: "pystr \<Rightarrow> pystr \<Rightarrow> bool" where
  "contains pat [] = (pat = [])"
| "contains pat (c # cs) = (startswith (c # cs) pat \<or> contains pat cs)"

section \<open>The regular expressions of the Guard\<close>

text \<open>
  \<open>re.sub(r'\n+', ' ', s)\<close> and \<open>re.sub(r'\s+', ' ', s)\<close>: every maximal run of
  characters of the class becomes one space. The space is written where the run ends.
\<close>

fun sub_runs :: "(codepoint \<Rightarrow> bool) \<Rightarrow> pystr \<Rightarrow> pystr" where
  "sub_runs P [] = []"
| "sub_runs P [c] = (if P c then [32] else [c])"
| "sub_runs P (c # d # cs) =
     (if P c then (if P d then sub_runs P (d # cs) else 32 # sub_runs P (d # cs))
      else c # sub_runs P (d # cs))"

text \<open>
  \<open>re.sub(r';+$', '', s)\<close>. Without \<open>re.MULTILINE\<close>, \<open>$\<close> matches at the end of the string
  and just in front of a newline that is the last character; the run of semicolons that
  reaches one of these two places is deleted.
\<close>

definition rstrip_semicolons :: "pystr \<Rightarrow> pystr" where
  "rstrip_semicolons s = rev (dropWhile (\<lambda>c. c = 59) (rev s))"

definition sub_trailing_semicolons :: "pystr \<Rightarrow> pystr" where
  "sub_trailing_semicolons s =
     (if s \<noteq> [] \<and> last s = 10 then rstrip_semicolons (butlast s) @ [10]
      else rstrip_semicolons s)"

text \<open>
  \<open>\b\<close> between two neighbouring positions: exactly one of the characters in front and
  after is a word character; the outside of the string counts as a non-word character.
\<close>

definition is_word_opt :: "unicode_db \<Rightarrow> codepoint option \<Rightarrow> bool" where
  "is_word_opt U x = (case x of None \<Rightarrow> False | Some c \<Rightarrow> is_word U c)"

definition boundary :: "unicode_db \<Rightarrow> codepoint option \<Rightarrow> codepoint option \<Rightarrow> bool" where
  "boundary U prev after \<longleftrightarrow> is_word_opt U prev \<noteq> is_word_opt U after"

definition head_opt :: "pystr \<Rightarrow> codepoint option" where
  "head_opt s = (case s of [] \<Rightarrow> None | c # _ \<Rightarrow> Some c)"

definition last_opt :: "codepoint option \<Rightarrow> pystr \<Rightarrow> codepoint option" where
  "last_opt prev s = (if s = [] then prev else Some (last s))"

text \<open>
  \<open>re.search(r'\b' + keyword + r'\b', s)\<close>: \<open>keyword_here\<close> is the match at the current
  position, \<open>prev\<close> the character in front of it; \<open>search_keyword\<close> tries every position.
\<close>

definition keyword_here :: "unicode_db \<Rightarrow> pystr \<Rightarrow> codepoint option \<Rightarrow> pystr \<Rightarrow> bool" where
  "keyword_here U kw prev s \<longleftrightarrow>
     boundary U prev (head_opt s) \<and> startswith s kw
     \<and> boundary U (last_opt prev kw) (head_opt (drop (length kw) s))"

fun search_keyword_from :: "unicode_db \<Rightarrow> pystr \<Rightarrow> codepoint option \<Rightarrow> pystr \<Rightarrow> bool" where
  "search_keyword_from U kw prev [] = keyword_here U kw prev []"
| "search_keyword_from U kw prev (c # cs) =
     (keyword_here U kw prev (c # cs) \<or> search_keyword_from U kw (Some c) cs)"

definition search_keyword :: "unicode_db \<Rightarrow> pystr \<Rightarrow> pystr \<Rightarrow> bool" where
  "search_keyword U kw s = search_keyword_from U kw None s"

text \<open>
  \<open>re.findall(r'\bFROM\s+(\w+)', s)\<close> and \<open>re.findall(r'JOIN\s+(\w+)', s)\<close>: the keyword
  (after a word boundary when \<open>bnd\<close> is set), a greedy non-empty run of whitespace, and
  a greedy non-empty run of word characters, which is the captured group. Whitespace is
  never a word character, so giving whitespace back cannot help and the greedy runs are
  the only candidates. \<open>table_here\<close> returns the group and the text after the match;
  \<open>findall_tables_from\<close> resumes the scan there, as \<open>findall\<close> does.
\<close>

definition table_here ::
  "unicode_db \<Rightarrow> bool \<Rightarrow> pystr \<Rightarrow> codepoint option \<Rightarrow> pystr \<Rightarrow> (pystr \<times> pystr) option" where
  "table_here U bnd kw prev s =
     (if (if bnd then boundary U prev (head_opt s) else True) \<and> startswith s kw then
        (let r = drop (length kw) s;
             r' = dropWhile py_isspace r;
             w = takeWhile (is_word U) r'
         in if takeWhile py_isspace r \<noteq> [] \<and> w \<noteq> [] then Some (w, dropWhile (is_word U) r')
            else None)
      else None)"

function findall_tables_from ::
  "unicode_db \<Rightarrow> bool \<Rightarrow> pystr \<Rightarrow> codepoint option \<Rightarrow> pystr \<Rightarrow> pystr list" where
  "findall_tables_from U bnd kw prev [] = []"
| "findall_tables_from U bnd kw prev (c # cs) =
     (case table_here U bnd kw prev (c # cs) of
        Some (w, rest) \<Rightarrow> w # findall_tables_from U bnd kw (Some (last w)) rest
      | None \<Rightarrow> findall_tables_from U bnd kw (Some c) cs)"
  by pat_completeness auto
termination
proof (relation "measure (\<lambda>(U, bnd, kw, prev, s). length s)")
  fix U :: unicode_db and bnd kw prev c cs x w rest
  assume "table_here U bnd kw prev (c # cs) = Some x" and "(w, rest) = x"
  then have h: "table_here U bnd kw prev (c # cs) = Some (w, rest)" by simp
  let ?r = "drop (length kw) (c # cs)"
  let ?r' = "dropWhile py_isspace ?r"
  from h have ne: "takeWhile py_isspace ?r \<noteq> []" and rest: "rest = dropWhile (is_word U) ?r'"
    by (auto simp: table_here_def Let_def split: if_splits)
  have "length ?r' < length ?r"
    using ne by (cases ?r) (auto simp: less_Suc_eq_le length_dropWhile_le split: if_splits)
  moreover have "length rest \<le> length ?r'"
    unfolding rest by (rule length_dropWhile_le)
  moreover have "length ?r \<le> length (c # cs)" by simp
  ultimately have "length rest < length (c # cs)" by linarith
  then show "((U, bnd, kw, Some (last w), rest), (U, bnd, kw, prev, c # cs))
               \<in> measure (\<lambda>(U, bnd, kw, prev, s). length s)"
    by simp
qed auto

definition findall_tables :: "unicode_db \<Rightarrow> bool \<Rightarrow> pystr \<Rightarrow> pystr \<Rightarrow> pystr list" where
  "findall_tables U bnd kw s = findall_tables_from U bnd kw None s"

section \<open>The SQL Security Guard (sql_guard.py)\<close>

text \<open>
  \<open>SQLSecurityException\<close> carries a message; one constructor stands for each message of
  the source, named as the specification names the failure.
\<close>

datatype security_error =
    NoSqlBlockFound
  | EmptyQuery
  | NotASelect
  | ForbiddenKeyword pystr
  | MultipleStatements
  | CommentInjection
  | DisallowedTable pystr
  | DisallowedJoin pystr

definition forbidden_keywords :: "pystr list" where
  "forbidden_keywords = map ascii
     [''INSERT'', ''UPDATE'', ''DELETE'', ''DROP'', ''ALTER'', ''CREATE'',
      ''ATTACH'', ''COPY'', ''EXPORT'', ''IMPORT'', ''PRAGMA'', ''CALL'',
      ''LOAD'', ''SET'', ''RESET'', ''EXPLAIN'', ''DESCRIBE'', ''EXEC'']"

text \<open>The normalisation at the head of \<open>sanitize_sql\<close>, in the source's order.\<close>

definition normalize_sql :: "pystr \<Rightarrow> pystr" where
  "normalize_sql sql =
     sub_runs py_isspace (sub_trailing_semicolons (sub_runs (\<lambda>c. c = 10) (strip sql)))"

definition check_tables :: "unicode_db \<Rightarrow> pystr list \<Rightarrow> pystr option" where
  "check_tables U tables = find (\<lambda>table. py_upper U table \<noteq> ascii ''SALES'') tables"

definition sanitize_sql :: "unicode_db \<Rightarrow> pystr \<Rightarrow> security_error + pystr" where
  "sanitize_sql U sql =
     (if sql = [] then Inl EmptyQuery
      else
        let sql_clean = normalize_sql sql;
            sql_upper = py_upper U sql_clean
        in
        if \<not> startswith (strip (py_upper U sql_clean)) (ascii ''SELECT'') then Inl NotASelect
        else
          (case find (\<lambda>keyword. search_keyword U keyword sql_upper) forbidden_keywords of
             Some keyword \<Rightarrow> Inl (ForbiddenKeyword keyword)
           | None \<Rightarrow>
              (if 59 \<in> set sql_clean then Inl MultipleStatements
               else if contains (ascii ''--'') sql_clean \<or> contains (ascii ''/*'') sql_clean
                 then Inl CommentInjection
               else
                 (case check_tables U (findall_tables U True (ascii ''FROM'') sql_upper) of
                    Some table \<Rightarrow> Inl (DisallowedTable table)
                  | None \<Rightarrow>
                     (if search_keyword U (ascii ''JOIN'') sql_upper then
                        (case check_tables U (findall_tables U False (ascii ''JOIN'') sql_upper) of
                           Some join_table \<Rightarrow> Inl (DisallowedJoin join_table)
                         | None \<Rightarrow> Inr sql_clean)
                      else Inr sql_clean)))))"

definition is_sql_safe :: "unicode_db \<Rightarrow> pystr \<Rightarrow> bool \<times> security_error option" where
  "is_sql_safe U sql =
     (case sanitize_sql U sql of Inr _ \<Rightarrow> (True, None) | Inl e \<Rightarrow> (False, Some e))"

text \<open>
  \<open>re.findall(r'```sql\s*(.*?)\s*```', response, re.DOTALL | re.IGNORECASE)\<close>, of which
  the source reads only the first element. Under \<open>re.IGNORECASE\<close> a letter of the pattern
  matches both of its ASCII cases and whatever the database adds beyond ASCII; the
  backquote is matched exactly.
\<close>

definition ascii_letter :: "codepoint \<Rightarrow> bool" where
  "ascii_letter c \<longleftrightarrow> (65 \<le> c \<and> c \<le> 90) \<or> (97 \<le> c \<and> c \<le> 122)"

definition ignorecase_match :: "unicode_db \<Rightarrow> codepoint \<Rightarrow> codepoint \<Rightarrow> bool" where
  "ignorecase_match U p c \<longleftrightarrow>
     (if ascii_letter p
      then (if c < 128 then ascii_lower c = ascii_lower p else uni_ignorecase U p c)
      else c = p)"

fun startswith_ignorecase :: "unicode_db \<Rightarrow> pystr \<Rightarrow> pystr \<Rightarrow> bool" where
  "startswith_ignorecase U s [] = True"
| "startswith_ignorecase U [] (p # ps) = False"
| "startswith_ignorecase U (c # cs) (p # ps) =
     (ignorecase_match U p c \<and> startswith_ignorecase U cs ps)"

text \<open>
  After the opening fence, \<open>\s*\<close> takes the whole run of whitespace (a backquote is not
  whitespace, so a shorter run cannot reach a closing fence that the whole run misses).
  The lazy group \<open>(.*?)\<close> then grows one character at a time, \<open>.\<close> matching newlines too,
  until \<open>\s*```\<close> matches what follows.
\<close>

definition closing_fence :: "pystr \<Rightarrow> bool" where
  "closing_fence r = startswith (dropWhile py_isspace r) (ascii ''```'')"

fun lazy_group :: "pystr \<Rightarrow> pystr option" where
  "lazy_group [] = None"
| "lazy_group (c # cs) =
     (if closing_fence (c # cs) then Some [] else map_option ((#) c) (lazy_group cs))"

definition block_here :: "unicode_db \<Rightarrow> pystr \<Rightarrow> pystr option" where
  "block_here U s =
     (if startswith_ignorecase U s (ascii ''```sql'')
      then lazy_group (dropWhile py_isspace (drop 6 s)) else None)"

fun first_sql_block :: "unicode_db \<Rightarrow> pystr \<Rightarrow> pystr option" where
  "first_sql_block U [] = None"
| "first_sql_block U (c # cs) =
     (case block_here U (c # cs) of Some g \<Rightarrow> Some g | None \<Rightarrow> first_sql_block U cs)"

definition extract_sql_from_response :: "unicode_db \<Rightarrow> pystr \<Rightarrow> pystr option" where
  "extract_sql_from_response U response = map_option strip (first_sql_block U response)"

definition validate_and_sanitize_sql :: "unicode_db \<Rightarrow> pystr \<Rightarrow> security_error + pystr" where
  "validate_and_sanitize_sql U llm_response =
     (case extract_sql_from_response U llm_response of
        None \<Rightarrow> Inl NoSqlBlockFound
      | Some sql \<Rightarrow> if sql = [] then Inl NoSqlBlockFound else sanitize_sql U sql)"

section \<open>The template registry and resolver (query_templates.py)\<close>

record query_template =
  tpl_name :: pystr
  tpl_sql :: pystr
  tpl_description :: pystr
  tpl_keywords :: "pystr list"

text \<open>A multi-line literal of the source, line by line, after its \<open>.strip()\<close>.\<close>

fun source_lines :: "string list \<Rightarrow> pystr" where
  "source_lines [] = []"
| "source_lines [l] = ascii l"
| "source_lines (l # ls) = ascii l @ 10 # source_lines ls"

definition monthly_category_template :: query_template where
  "monthly_category_template = \<lparr>
     tpl_name = [26376, 27425, 12459, 12486, 12468, 12522, 21029, 22770, 19978],
     tpl_sql = source_lines
       [''SELECT '',
        ''    date_trunc('month', date) AS month,'',
        ''    category,'',
        ''    SUM(revenue) AS total_revenue,'',
        ''    SUM(units) AS total_units'',
        ''FROM sales '',
        ''GROUP BY date_trunc('month', date), category'',
        ''ORDER BY month, category''],
     tpl_description = [26376, 27598, 12398, 12459, 12486, 12468, 12522, 12540, 21029, 22770,
        19978, 20998, 26512],
     tpl_keywords = [[26376], [12459, 12486, 12468, 12522], [26376, 27598], [26376, 21029],
        ascii ''category'', ascii ''month''] \<rparr>"

definition channel_template :: query_template where
  "channel_template = \<lparr>
     tpl_name = [12481, 12515, 12493, 12523, 21029, 22770, 19978],
     tpl_sql = source_lines
       [''SELECT '',
        ''    sales_channel,'',
        ''    SUM(revenue) AS total_revenue,'',
        ''    SUM(units) AS total_units,'',
        ''    COUNT(*) AS transaction_count'',
        ''FROM sales '',
        ''GROUP BY sales_channel'',
        ''ORDER BY total_revenue DESC''],
     tpl_description = [36009, 22770, 12481, 12515, 12493, 12523, 21029, 12398, 22770, 19978,
        20998, 26512],
     tpl_keywords = [[12481, 12515, 12493, 12523], [12481, 12515, 12531, 12493, 12523],
        ascii ''channel'', [36009, 22770], [32076, 36335]] \<rparr>"

definition region_template :: query_template where
  "region_template = \<lparr>
     tpl_name = [22320, 22495, 21029, 22770, 19978],
     tpl_sql = source_lines
       [''SELECT '',
        ''    region,'',
        ''    SUM(revenue) AS total_revenue,'',
        ''    SUM(units) AS total_units,'',
        ''    COUNT(*) AS transaction_count'',
        ''FROM sales '',
        ''GROUP BY region'',
        ''ORDER BY total_revenue DESC''],
     tpl_description = [22320, 22495, 21029, 12398, 22770, 19978, 20998, 26512],
     tpl_keywords = [[22320, 22495], [22320, 26041], ascii ''region'', [12456, 12522, 12450],
        [22580, 25152]] \<rparr>"

definition customer_segment_template :: query_template where
  "customer_segment_template = \<lparr>
     tpl_name = [39015, 23458, 12475, 12464, 12513, 12531, 12488, 21029, 22770, 19978],
     tpl_sql = source_lines
       [''SELECT '',
        ''    customer_segment,'',
        ''    SUM(revenue) AS total_revenue,'',
        ''    SUM(units) AS total_units,'',
        ''    COUNT(*) AS transaction_count'',
        ''FROM sales '',
        ''GROUP BY customer_segment'',
        ''ORDER BY total_revenue DESC''],
     tpl_description = [39015, 23458, 12475, 12464, 12513, 12531, 12488, 21029, 12398, 22770,
        19978, 20998, 26512],
     tpl_keywords = [[39015, 23458], [12475, 12464, 12513, 12531, 12488], ascii ''segment'',
        ascii ''customer'', [12463, 12521, 12452, 12450, 12531, 12488]] \<rparr>"

definition get_fallback_templates :: "query_template list" where
  "get_fallback_templates =
     [monthly_category_template, channel_template, region_template, customer_segment_template]"

definition get_default_query :: pystr where
  "get_default_query = source_lines
     [''SELECT '',
      ''    SUM(revenue) AS total_revenue,'',
      ''    SUM(units) AS total_units,'',
      ''    COUNT(*) AS total_transactions'',
      ''FROM sales'']"

text \<open>The name returned with the default query, a ten-character Japanese label.\<close>

definition default_template_name :: pystr where
  "default_template_name =
     [12487, 12501, 12457, 12523, 12488, 65288, 32207, 22770, 19978, 65289]"

text \<open>
  The two keyword loops of \<open>find_best_template\<close>: the first adds one for each keyword
  found in the lower-cased query, the second one more for each found keyword longer
  than three characters.
\<close>

definition keyword_in :: "unicode_db \<Rightarrow> pystr \<Rightarrow> pystr \<Rightarrow> bool" where
  "keyword_in U user_query_lower keyword = contains (py_lower U keyword) user_query_lower"

definition template_score :: "unicode_db \<Rightarrow> pystr \<Rightarrow> query_template \<Rightarrow> nat" where
  "template_score U user_query_lower template =
     (let score = fold (\<lambda>keyword score.
                          if keyword_in U user_query_lower keyword then score + 1 else score)
                       (tpl_keywords template) 0
      in fold (\<lambda>keyword score.
                 if length keyword > 3 \<and> keyword_in U user_query_lower keyword
                 then score + 1 else score)
              (tpl_keywords template) score)"

text \<open>One round of the template loop, on the pair \<open>(best_template, max_score)\<close>.\<close>

definition consider_template ::
  "unicode_db \<Rightarrow> pystr \<Rightarrow> query_template \<Rightarrow> query_template option \<times> nat
     \<Rightarrow> query_template option \<times> nat" where
  "consider_template U user_query_lower template st =
     (let score = template_score U user_query_lower template
      in if score > snd st then (Some template, score) else st)"

text \<open>
  The body of \<open>find_best_template\<close> over a given registry; \<open>find_best_template\<close> itself
  reads the registry from \<open>get_fallback_templates\<close>.
\<close>

definition select_template ::
  "unicode_db \<Rightarrow> query_template list \<Rightarrow> pystr \<Rightarrow> pystr \<times> pystr" where
  "select_template U templates user_query =
     (let user_query_lower = py_lower U user_query;
          (best_template, max_score) =
             fold (consider_template U user_query_lower) templates (None, 0)
      in case best_template of
           None \<Rightarrow> (get_default_query, default_template_name)
         | Some template \<Rightarrow>
             if max_score = 0 then (get_default_query, default_template_name)
             else (tpl_sql template, tpl_name template))"

definition find_best_template :: "unicode_db \<Rightarrow> pystr \<Rightarrow> pystr \<times> pystr" where
  "find_best_template U user_query = select_template U get_fallback_templates user_query"

section \<open>The collaborators\<close>

text \<open>
  A call that may raise returns \<open>Inl\<close> with the text of the exception, \<open>str(e)\<close>, or
  \<open>Inr\<close> with its value. The language-model client is the abstract class \<open>LLMClient\<close>
  with its two methods; the concrete clients only forward to a remote service.
\<close>

type_synonym 'a raising = "pystr + 'a"

record llm_client =
  generate_sql :: "pystr \<Rightarrow> pystr \<Rightarrow> pystr raising"
  generate_summary :: "pystr \<Rightarrow> pystr \<Rightarrow> pystr \<Rightarrow> pystr raising"

text \<open>
  A pandas \<open>DataFrame\<close> is kept as its column labels and its rows of cells, written as
  text. \<open>DataFrame.empty\<close> holds when an axis has length zero; \<open>pd.DataFrame()\<close> has
  neither columns nor rows. What pandas computes from the cells (the CSV text of the
  first 200 rows, and the lines \<open>create_fallback_summary\<close> derives from the numeric and
  the categorical columns with floating-point sums and means) is a parameter.
\<close>

record dataframe =
  df_columns :: "pystr list"
  df_rows :: "pystr list list"

definition df_empty :: "dataframe \<Rightarrow> bool" where
  "df_empty d \<longleftrightarrow> df_columns d = [] \<or> df_rows d = []"

definition empty_dataframe :: dataframe where
  "empty_dataframe = \<lparr> df_columns = [], df_rows = [] \<rparr>"

record pandas_ops =
  head_to_csv :: "dataframe \<Rightarrow> pystr"
  column_lines :: "dataframe \<Rightarrow> pystr list"

text \<open>
  The module-level state of \<open>chatbot_app.py\<close>: the loaded data (or \<open>None\<close>), the client
  (or \<open>None\<close>), the DuckDB connection as the function from a query to its result or
  error, and the schema text built from the data, whose construction may raise.
\<close>

record environment =
  sales_data :: "dataframe option"
  the_llm_client :: "llm_client option"
  db_execute :: "pystr \<Rightarrow> dataframe raising"
  schema_info :: "dataframe \<Rightarrow> pystr raising"

section \<open>The orchestrator (chatbot_app.py)\<close>

text \<open>\<open>execute_sql_query\<close> catches every exception and returns an empty frame.\<close>

definition execute_sql_query :: "environment \<Rightarrow> pystr \<Rightarrow> dataframe" where
  "execute_sql_query env sql =
     (case db_execute env sql of Inr result \<Rightarrow> result | Inl e \<Rightarrow> empty_dataframe)"

text \<open>
  The returned tuple of \<open>process_user_query\<close>, and beside it the queries that were
  handed to the connection, in order. The notices written to the page are not modelled.
\<close>

record outcome =
  executed_sql :: "pystr option"
  result_df :: dataframe
  is_fallback :: bool
  template_name :: "pystr option"
  engine_calls :: "pystr list"

definition no_data_message :: pystr where
  "no_data_message = [12487, 12540, 12479, 12364, 35501, 12415, 36796, 12414, 12428, 12390,
     12356, 12414, 12379, 12435, 12290]"

text \<open>
  The \<open>try\<close> block: the state after it, with \<open>is_fallback\<close> set by either handler. The
  query is assigned to \<open>executed_sql\<close> only when validation returns.
\<close>

definition try_generated_sql ::
  "unicode_db \<Rightarrow> environment \<Rightarrow> dataframe \<Rightarrow> llm_client \<Rightarrow> pystr \<Rightarrow> outcome" where
  "try_generated_sql U env data client user_query =
     (let failed = \<lparr> executed_sql = None, result_df = empty_dataframe, is_fallback = True,
                      template_name = None, engine_calls = [] \<rparr>
      in case schema_info env data of
           Inl e \<Rightarrow> failed
         | Inr info \<Rightarrow>
            (case generate_sql client user_query info of
               Inl e \<Rightarrow> failed
             | Inr llm_response \<Rightarrow>
                (case validate_and_sanitize_sql U llm_response of
                   Inl e \<Rightarrow> failed
                 | Inr sql \<Rightarrow>
                     \<lparr> executed_sql = Some sql, result_df = execute_sql_query env sql,
                       is_fallback = False, template_name = None, engine_calls = [sql] \<rparr>)))"

definition process_user_query :: "unicode_db \<Rightarrow> environment \<Rightarrow> pystr \<Rightarrow> outcome" where
  "process_user_query U env user_query =
     (case sales_data env of
        None \<Rightarrow> \<lparr> executed_sql = Some no_data_message, result_df = empty_dataframe,
                  is_fallback = True, template_name = None, engine_calls = [] \<rparr>
      | Some data \<Rightarrow>
         (let st = (case the_llm_client env of
                      Some client \<Rightarrow> try_generated_sql U env data client user_query
                    | None \<Rightarrow> \<lparr> executed_sql = None, result_df = empty_dataframe,
                                is_fallback = True, template_name = None, engine_calls = [] \<rparr>)
          in if is_fallback st \<or> df_empty (result_df st) then
               (let (sql, name) = find_best_template U user_query
                in \<lparr> executed_sql = Some sql, result_df = execute_sql_query env sql,
                     is_fallback = True, template_name = Some name,
                     engine_calls = engine_calls st @ [sql] \<rparr>)
             else st))"

section \<open>The summary (narration.py)\<close>

definition summary_error_prefix :: pystr where
  "summary_error_prefix = [12469, 12510, 12522, 12540, 29983, 25104, 20013, 12395, 12456,
     12521, 12540, 12364, 30330, 29983, 12375, 12414, 12375, 12383, 58, 32]"

text \<open>
  \<open>generate_summary_with_llm\<close> wraps the call in \<open>try\<close> and, on any exception, returns the
  message above followed by the text of the exception.
\<close>

definition generate_summary_with_llm ::
  "pandas_ops \<Rightarrow> llm_client \<Rightarrow> pystr \<Rightarrow> pystr \<Rightarrow> dataframe \<Rightarrow> pystr" where
  "generate_summary_with_llm P client user_query sql result =
     (let result_csv = head_to_csv P result
      in case generate_summary client user_query sql result_csv of
           Inr summary \<Rightarrow> summary
         | Inl e \<Rightarrow> summary_error_prefix @ e)"

text \<open>Decimal digits of a number, and the format \<open>{:,}\<close> with its thousands separators.\<close>

fun decimal :: "nat \<Rightarrow> pystr" where
  "decimal n = (if n < 10 then [48 + n] else decimal (n div 10) @ [48 + n mod 10])"

declare decimal.simps [simp del]

fun format_thousands :: "nat \<Rightarrow> pystr" where
  "format_thousands n =
     (if n < 1000 then decimal n
      else format_thousands (n div 1000) @ 44 # drop 1 (decimal (1000 + n mod 1000)))"

declare format_thousands.simps [simp del]

fun join_lines :: "pystr list \<Rightarrow> pystr" where
  "join_lines [] = []"
| "join_lines [l] = l"
| "join_lines (l # ls) = l @ 10 # join_lines ls"

definition no_data_line :: pystr where
  "no_data_line = [8226, 32, 25351, 23450, 12373, 12428, 12383, 26465, 20214, 12395, 35442,
     24403, 12377, 12427, 12487, 12540, 12479, 12364, 35211, 12388, 12363, 12426, 12414,
     12379, 12435, 12391, 12375, 12383]"

definition records_line :: "nat \<Rightarrow> pystr" where
  "records_line row_count = [8226, 32] @ format_thousands row_count
     @ [32, 20214, 12398, 12524, 12467, 12540, 12489, 12364, 35442, 24403, 12375, 12414,
        12375, 12383]"

definition template_note :: "pystr \<Rightarrow> pystr" where
  "template_note name = [12304, 27880, 35352, 12305, 23450, 22411, 12463, 12456, 12522, 12300]
     @ name @ [12301, 12434, 20351, 29992, 12375, 12390, 20998, 26512, 12375, 12414, 12375,
        12383]"

text \<open>\<open>if template_name:\<close> holds for a name that is neither \<open>None\<close> nor empty.\<close>

definition truthy :: "pystr option \<Rightarrow> bool" where
  "truthy x = (case x of None \<Rightarrow> False | Some s \<Rightarrow> s \<noteq> [])"

definition create_fallback_summary ::
  "pandas_ops \<Rightarrow> pystr \<Rightarrow> pystr \<Rightarrow> dataframe \<Rightarrow> pystr option \<Rightarrow> pystr" where
  "create_fallback_summary P user_query sql result name =
     (if df_empty result then no_data_line
      else join_lines
        ([records_line (length (df_rows result))] @ column_lines P result
         @ (if truthy name then [[8226, 32] @ template_note (the name)] else [])))"

text \<open>
  \<open>generate_analysis_summary\<close>. The \<open>try\<close> around the language-model branch has a handler
  that falls through to \<open>create_fallback_summary\<close>; nothing in its body raises, since
  \<open>generate_summary_with_llm\<close> returns a string in every case, so the branch returns.
\<close>

definition generate_analysis_summary ::
  "pandas_ops \<Rightarrow> llm_client option \<Rightarrow> pystr \<Rightarrow> pystr \<Rightarrow> dataframe \<Rightarrow> bool \<Rightarrow> pystr option
     \<Rightarrow> pystr" where
  "generate_analysis_summary P client user_query sql result fallback name =
     (if df_empty result then create_fallback_summary P user_query sql result name
      else case client of
        Some c \<Rightarrow>
          if \<not> fallback then
            (let llm_summary = generate_summary_with_llm P c user_query sql result
             in if truthy name then llm_summary @ [10, 10] @ template_note (the name)
                else llm_summary)
          else create_fallback_summary P user_query sql result name
      | None \<Rightarrow> create_fallback_summary P user_query sql result name)"

section \<open>Concrete inputs\<close>

text \<open>The scenario of the specification: a second statement after a semicolon.\<close>

definition drop_table_candidate :: pystr where
  "drop_table_candidate = ascii ''SELECT * FROM sales; DROP TABLE sales''"

definition drop_table_response :: pystr where
  "drop_table_response = ascii ''```sql'' @ 10 # drop_table_candidate @ 10 # ascii ''```''"

text \<open>A response whose fenced block holds a harmless query.\<close>

definition select_one_response :: pystr where
  "select_one_response = ascii ''```sql'' @ 10 # ascii ''SELECT 1'' @ 10 # ascii ''```''"

text \<open>
  A client whose SQL is accepted by the Guard and whose summary call raises, a result
  of one row, an engine that answers every query with no rows, and pandas operations
  that add nothing.
\<close>

definition failing_summary_client :: llm_client where
  "failing_summary_client = \<lparr> generate_sql = (\<lambda>user_query info. Inr select_one_response),
     generate_summary = (\<lambda>query sql result_csv. Inl (ascii ''timeout'')) \<rparr>"

definition one_row_result :: dataframe where
  "one_row_result = \<lparr> df_columns = [ascii ''total_revenue''], df_rows = [[ascii ''100'']] \<rparr>"

definition no_rows_result :: dataframe where
  "no_rows_result = \<lparr> df_columns = [ascii ''total_revenue''], df_rows = [] \<rparr>"

definition plain_pandas :: pandas_ops where
  "plain_pandas = \<lparr> head_to_csv = (\<lambda>d. []), column_lines = (\<lambda>d. []) \<rparr>"

definition no_rows_environment :: environment where
  "no_rows_environment = \<lparr> sales_data = Some one_row_result,
     the_llm_client = Some failing_summary_client,
     db_execute = (\<lambda>sql. Inr no_rows_result),
     schema_info = (\<lambda>data. Inr []) \<rparr>"

section \<open>The resolver as the specification words it\<close>

text \<open>
  The score of a template in the words of the specification: one for each keyword whose
  lower-cased form is a substring of the lower-cased text, and one more for each such
  keyword of more than three characters. The resolver in the same words: the first
  template in registry order whose score is the maximum, or the default query when the
  maximum is zero.
\<close>

definition spec_score :: "unicode_db \<Rightarrow> pystr \<Rightarrow> query_template \<Rightarrow> nat" where
  "spec_score U text t =
     length (filter (\<lambda>k. contains (py_lower U k) text) (tpl_keywords t))
     + length (filter (\<lambda>k. contains (py_lower U k) text \<and> length k > 3) (tpl_keywords t))"

definition spec_resolve :: "unicode_db \<Rightarrow> query_template list \<Rightarrow> pystr \<Rightarrow> pystr \<times> pystr" where
  "spec_resolve U templates user_query =
     (let text = py_lower U user_query;
          best = fold max (map (spec_score U text) templates) 0
      in case find (\<lambda>t. spec_score U text t = best) templates of
           None \<Rightarrow> (get_default_query, default_template_name)
         | Some t \<Rightarrow> if best = 0 then (get_default_query, default_template_name)
                     else (tpl_sql t, tpl_name t))"

text \<open>A response whose only fenced block holds whitespace.\<close>

definition blank_block_response :: pystr where
  "blank_block_response = ascii ''Here: '' @ ascii ''```SQL'' @ [10, 32, 32, 10] @ ascii ''```'' @ ascii '' done''"

section \<open>Notions used in the proofs\<close>

text \<open>
  A text in which every character of the class is a space and no two of them are
  neighbours, as \<open>re.sub(r'\s+', ' ', s)\<close> leaves it; and the checks of \<open>sanitize_sql\<close>
  on the normalised text, taken together.
\<close>

fun single_spaced :: "(codepoint \<Rightarrow> bool) \<Rightarrow> pystr \<Rightarrow> bool" where
  "single_spaced P [] = True"
| "single_spaced P [c] = (if P c then c = 32 else True)"
| "single_spaced P (c # d # cs) =
     ((if P c then c = 32 \<and> \<not> P d else True) \<and> single_spaced P (d # cs))"

definition passes_checks :: "unicode_db \<Rightarrow> pystr \<Rightarrow> bool" where
  "passes_checks U c \<longleftrightarrow>
     startswith (strip (py_upper U c)) (ascii ''SELECT'')
     \<and> find (\<lambda>keyword. search_keyword U keyword (py_upper U c)) forbidden_keywords = None
     \<and> 59 \<notin> set c
     \<and> \<not> contains (ascii ''--'') c \<and> \<not> contains (ascii ''/*'') c
     \<and> check_tables U (findall_tables U True (ascii ''FROM'') (py_upper U c)) = None
     \<and> (if search_keyword U (ascii ''JOIN'') (py_upper U c)
        then check_tables U (findall_tables U False (ascii ''JOIN'') (py_upper U c)) = None
        else True)"

text \<open>
  A response with two fenced blocks: a query in the first, only a newline in the second.
\<close>

definition two_block_response :: pystr where
  "two_block_response = select_one_response @ [10] @ ascii ''```sql'' @ [10] @ ascii ''```''"

text \<open>A query that reads a second table after a comma, alone and in a fenced block.\<close>

definition other_table_candidate :: pystr where
  "other_table_candidate = ascii ''SELECT * FROM sales, users''"

definition other_table_response :: pystr where
  "other_table_response = ascii ''```sql'' @ 10 # other_table_candidate @ 10 # ascii ''```''"

text \<open>
  The maximal runs of word characters of a text, in order: a keyword that
  \<open>search_keyword\<close> finds between two word boundaries is one of them.
\<close>

fun tokens_from :: "unicode_db \<Rightarrow> pystr \<Rightarrow> pystr \<Rightarrow> pystr list" where
  "tokens_from U acc [] = (if acc = [] then [] else [rev acc])"
| "tokens_from U acc (c # cs) =
     (if is_word U c then tokens_from U (c # acc) cs
      else (if acc = [] then [] else [rev acc]) @ tokens_from U [] cs)"

definition word_tokens :: "unicode_db \<Rightarrow> pystr \<Rightarrow> pystr list" where
  "word_tokens U s = tokens_from U [] s"

section \<open>Evaluation\<close>

text \<open>The equations that evaluate the Guard on a literal.\<close>

lemmas guard_eval = ascii_def py_isspace_def ascii_upper_def ascii_lower_def ascii_alnum_def
  ascii_letter_def upper_char_def py_upper_def
  is_word_def lstrip_def rstrip_def strip_def rstrip_semicolons_def sub_trailing_semicolons_def
  is_word_opt_def boundary_def head_opt_def last_opt_def keyword_here_def search_keyword_def
  table_here_def findall_tables_def forbidden_keywords_def normalize_sql_def check_tables_def
  sanitize_sql_def ignorecase_match_def closing_fence_def block_here_def
  extract_sql_from_response_def validate_and_sanitize_sql_def Let_def

section \<open>Normalisation\<close>

lemma sub_runs_chars: "c \<in> set (sub_runs P s) \<Longrightarrow> c = 32 \<or> (c \<in> set s \<and> \<not> P c)"
  by (induction P s rule: sub_runs.induct) (auto split: if_splits)

lemma dropWhile_all_iff: "(\<forall>c\<in>set (dropWhile P s). P c) \<longleftrightarrow> (\<forall>c\<in>set s. P c)"
  by (induction s) auto

lemma strip_Nil_iff: "strip s = [] \<longleftrightarrow> (\<forall>c\<in>set s. py_isspace c)"
  by (simp add: strip_def rstrip_def lstrip_def dropWhile_eq_Nil_conv dropWhile_all_iff)

lemma py_upper_spaces: "\<forall>c\<in>set s. c = 32 \<Longrightarrow> py_upper U s = s"
  by (induction s) (auto simp: py_upper_def upper_char_def ascii_upper_def)

lemma normalize_blank:
  assumes "strip (normalize_sql s) = []"
  shows "py_upper U (normalize_sql s) = normalize_sql s"
proof (rule py_upper_spaces, rule ballI)
  fix c assume c: "c \<in> set (normalize_sql s)"
  with assms have "py_isspace c" by (simp add: strip_Nil_iff)
  moreover from c have "c = 32 \<or> \<not> py_isspace c"
    unfolding normalize_sql_def by (auto dest: sub_runs_chars)
  ultimately show "c = 32" by blast
qed

section \<open>Claims about the Guard's error order\<close>

text \<open>
  C2, as stated: the candidate \<open>SELECT * FROM sales; DROP TABLE sales\<close> fails with
  \<open>MultipleStatements\<close>. It does not: neither \<open>sanitize_sql\<close> on the candidate nor
  \<open>validate_and_sanitize_sql\<close> on a response that carries it in a fenced block.
\<close>

theorem drop_table_not_multiple_statements:
  "sanitize_sql caseless_db drop_table_candidate \<noteq> Inl MultipleStatements
   \<and> validate_and_sanitize_sql caseless_db drop_table_response \<noteq> Inl MultipleStatements"
  by (simp add: drop_table_response_def drop_table_candidate_def guard_eval)

text \<open>
  C2, amended: the forbidden-keyword check runs before the semicolon check, so the
  candidate fails with \<open>ForbiddenKeyword\<close> for \<open>DROP\<close>, whatever the Unicode database.
\<close>

theorem drop_table_forbidden_keyword:
  "sanitize_sql U drop_table_candidate = Inl (ForbiddenKeyword (ascii ''DROP''))
   \<and> validate_and_sanitize_sql U drop_table_response = Inl (ForbiddenKeyword (ascii ''DROP''))"
  by (simp add: drop_table_response_def drop_table_candidate_def guard_eval)

text \<open>
  C3, as stated: a candidate whose normalised form is empty fails with \<open>EmptyQuery\<close>.
  The candidate \<open>;\<close> has an empty normalised form and fails with \<open>NotASelect\<close>.
\<close>

theorem semicolon_not_empty_query:
  "strip (normalize_sql (ascii '';'')) = []
   \<and> sanitize_sql caseless_db (ascii '';'') = Inl NotASelect
   \<and> sanitize_sql caseless_db (ascii '';'') \<noteq> Inl EmptyQuery"
  by (simp add: guard_eval)

text \<open>
  C3, amended: the emptiness check reads the candidate before normalisation. A candidate
  whose normalised form is empty fails with \<open>EmptyQuery\<close> when it is itself the empty
  string, and with \<open>NotASelect\<close> otherwise.
\<close>

theorem empty_normal_form_rejected:
  assumes "strip (normalize_sql s) = []"
  shows "sanitize_sql U s = Inl (if s = [] then EmptyQuery else NotASelect)"
proof (cases "s = []")
  case True
  then show ?thesis by (simp add: sanitize_sql_def)
next
  case False
  have "strip (py_upper U (normalize_sql s)) = []"
    using assms by (simp add: normalize_blank)
  then have "\<not> startswith (strip (py_upper U (normalize_sql s))) (ascii ''SELECT'')"
    by (simp add: ascii_def)
  with False show ?thesis by (simp add: sanitize_sql_def Let_def)
qed

theorem empty_normal_form_rejected_witness:
  "strip (normalize_sql (ascii '';'')) = []
   \<and> sanitize_sql caseless_db (ascii '';'') = Inl NotASelect"
proof -
  have h: "strip (normalize_sql (ascii '';'')) = []" by (simp add: guard_eval)
  show ?thesis
    using h empty_normal_form_rejected [OF h, of caseless_db] by (simp add: ascii_def)
qed

section \<open>The resolver\<close>

lemma fold_count: "fold (\<lambda>k n. if Q k then n + 1 else n) ks (a::nat) = a + length (filter Q ks)"
  by (induction ks arbitrary: a) auto

lemma template_score_spec: "template_score U text t = spec_score U text t"
  by (simp add: template_score_def spec_score_def keyword_in_def fold_count conj_commute)

lemma fold_max_ge: "(m::nat) \<le> fold max xs m"
  by (induction xs arbitrary: m) (auto intro: order_trans [OF max.cobounded2])

lemma fold_max_eq: "\<forall>x\<in>set xs. x \<le> m \<Longrightarrow> fold max xs (m::nat) = m"
  by (induction xs arbitrary: m) (auto simp: max_def)

lemma fold_max_gt: "\<exists>x\<in>set xs. m < x \<Longrightarrow> (m::nat) < fold max xs m"
proof (induction xs arbitrary: m)
  case Nil then show ?case by simp
next
  case (Cons x xs)
  show ?case
  proof (cases "m < x")
    case True
    then have mx: "max x m = x" by simp
    have "x \<le> fold max xs x" by (rule fold_max_ge)
    with True show ?thesis by (simp add: mx)
  next
    case False
    with Cons.prems have "\<exists>y\<in>set xs. m < y" by auto
    moreover from False have "max x m = m" by simp
    ultimately show ?thesis using Cons.IH [of m] by simp
  qed
qed

lemma fold_consider:
  "fold (consider_template U text) ts (b, m) =
     (if \<exists>t\<in>set ts. m < spec_score U text t
      then find (\<lambda>t. spec_score U text t = fold max (map (spec_score U text) ts) m) ts
      else b,
      fold max (map (spec_score U text) ts) m)"
proof (induction ts arbitrary: b m)
  case Nil
  then show ?case by simp
next
  case (Cons t ts)
  let ?sc = "spec_score U text"
  show ?case
  proof (cases "m < ?sc t")
    case True
    then have step: "consider_template U text t (b, m) = (Some t, ?sc t)"
      by (simp add: consider_template_def template_score_spec)
    have mx: "max (?sc t) m = ?sc t" using True by simp
    show ?thesis
    proof (cases "\<exists>x\<in>set ts. ?sc t < ?sc x")
      case True
      then have "?sc t < fold max (map ?sc ts) (?sc t)"
        by (intro fold_max_gt) auto
      with True \<open>m < ?sc t\<close> show ?thesis
        by (simp add: step Cons.IH mx)
    next
      case False
      then have "fold max (map ?sc ts) (?sc t) = ?sc t"
        by (intro fold_max_eq) (auto simp: not_less)
      with False \<open>m < ?sc t\<close> show ?thesis
        by (simp add: step Cons.IH mx)
    qed
  next
    case False
    then have step: "consider_template U text t (b, m) = (b, m)"
      by (simp add: consider_template_def template_score_spec)
    have mx: "max (?sc t) m = m" using False by simp
    show ?thesis
    proof (cases "\<exists>x\<in>set ts. m < ?sc x")
      case True
      then have "m < fold max (map ?sc ts) m"
        by (intro fold_max_gt) auto
      with False have "?sc t \<noteq> fold max (map ?sc ts) m" by simp
      with True show ?thesis
        by (simp add: step Cons.IH mx)
    next
      case nope: False
      with False have "\<not> (\<exists>x\<in>set (t # ts). m < ?sc x)" by simp
      with nope show ?thesis
        by (simp add: step Cons.IH mx)
    qed
  qed
qed

lemma select_template_spec: "select_template U templates q = spec_resolve U templates q"
proof -
  let ?text = "py_lower U q"
  let ?sc = "spec_score U ?text"
  let ?best = "fold max (map ?sc templates) 0"
  show ?thesis
  proof (cases "\<exists>t\<in>set templates. 0 < ?sc t")
    case True
    then have pos: "0 < ?best" by (intro fold_max_gt) auto
    from True obtain t where "find (\<lambda>t. ?sc t = ?best) templates = Some t \<or> find (\<lambda>t. ?sc t = ?best) templates = None"
      by (cases "find (\<lambda>t. ?sc t = ?best) templates") auto
    with True pos show ?thesis
      by (auto simp: select_template_def spec_resolve_def fold_consider Let_def split: option.splits)
  next
    case False
    then have "?best = 0" by (intro fold_max_eq) auto
    with False show ?thesis
      by (auto simp: select_template_def spec_resolve_def fold_consider Let_def split: option.splits)
  qed
qed

text \<open>
  C7: the score of a template and the choice among the templates are those of the
  specification; the result is a function of the text and the registry alone, and
  \<open>find\<close> returns the earliest template that attains the maximum, so a later template
  of equal score never replaces it.
\<close>

theorem find_best_template_refines_spec:
  "template_score U text t = spec_score U text t
   \<and> select_template U templates q = spec_resolve U templates q
   \<and> find_best_template U q = spec_resolve U get_fallback_templates q"
  by (simp add: template_score_spec select_template_spec find_best_template_def)

lemma tpl_keywords_monthly: "tpl_keywords monthly_category_template =
    [[26376], [12459, 12486, 12468, 12522], [26376, 27598], [26376, 21029],
     ascii ''category'', ascii ''month'']"
  by (simp add: monthly_category_template_def)

lemma tpl_keywords_channel: "tpl_keywords channel_template =
    [[12481, 12515, 12493, 12523], [12481, 12515, 12531, 12493, 12523],
     ascii ''channel'', [36009, 22770], [32076, 36335]]"
  by (simp add: channel_template_def)

lemma tpl_keywords_region: "tpl_keywords region_template =
    [[22320, 22495], [22320, 26041], ascii ''region'', [12456, 12522, 12450], [22580, 25152]]"
  by (simp add: region_template_def)

lemma tpl_keywords_customer: "tpl_keywords customer_segment_template =
    [[39015, 23458], [12475, 12464, 12513, 12531, 12488], ascii ''segment'',
     ascii ''customer'', [12463, 12521, 12452, 12450, 12531, 12488]]"
  by (simp add: customer_segment_template_def)

lemmas keywords_eval = get_fallback_templates_def tpl_keywords_monthly tpl_keywords_channel
  tpl_keywords_region tpl_keywords_customer keyword_in_def py_lower_def ascii_lower_def
  ascii_def caseless_db_def

lemma score_zero:
  assumes "\<forall>k\<in>set (tpl_keywords t). \<not> keyword_in U text k"
  shows "template_score U text t = 0"
  using assms by (simp add: template_score_spec spec_score_def keyword_in_def)

lemma fold_consider_zero:
  "\<forall>t\<in>set ts. template_score U text t = 0 \<Longrightarrow>
     fold (consider_template U text) ts (None, 0) = (None, 0)"
  by (induction ts) (auto simp: consider_template_def)

text \<open>
  C4, as stated: when no keyword occurs in the query, the default query is returned
  with no template name. For the query \<open>hello\<close> every template scores zero and the
  default query is returned, but with a name: the ten-character label of the source.
\<close>

theorem default_query_has_a_name:
  "map (template_score caseless_db (py_lower caseless_db (ascii ''hello''))) get_fallback_templates
     = [0, 0, 0, 0]
   \<and> find_best_template caseless_db (ascii ''hello'')
     = (get_default_query, [12487, 12501, 12457, 12523, 12488, 65288, 32207, 22770, 19978, 65289])
   \<and> snd (find_best_template caseless_db (ascii ''hello'')) \<noteq> []"
  by (simp add: find_best_template_def select_template_def consider_template_def
      template_score_def keywords_eval default_template_name_def)

text \<open>
  C4, amended: when no keyword of any template occurs in the lower-cased query,
  \<open>find_best_template\<close> returns the default aggregate query together with the fixed
  name of the default.
\<close>

theorem no_keyword_gives_default:
  assumes "\<forall>t\<in>set get_fallback_templates. \<forall>k\<in>set (tpl_keywords t).
             \<not> keyword_in U (py_lower U user_query) k"
  shows "find_best_template U user_query = (get_default_query, default_template_name)"
proof -
  have "\<forall>t\<in>set get_fallback_templates. template_score U (py_lower U user_query) t = 0"
    using assms by (auto intro: score_zero)
  then show ?thesis
    by (simp add: find_best_template_def select_template_def fold_consider_zero)
qed

theorem no_keyword_gives_default_witness:
  "find_best_template caseless_db (ascii ''hello'') = (get_default_query, default_template_name)"
proof -
  have h: "\<forall>t\<in>set get_fallback_templates. \<forall>k\<in>set (tpl_keywords t).
       \<not> keyword_in caseless_db (py_lower caseless_db (ascii ''hello'')) k"
    by (simp add: keywords_eval)
  show ?thesis using no_keyword_gives_default [OF h] by simp
qed

section \<open>The orchestrator\<close>

lemma select_one_validated:
  "validate_and_sanitize_sql U select_one_response = Inr (ascii ''SELECT 1'')"
  by (simp add: select_one_response_def guard_eval)

text \<open>
  C5: when the generated query passes the Guard and its execution returns no rows, the
  orchestrator resolves a template with \<open>find_best_template\<close>, executes its query after
  the generated one, and returns the outcome with \<open>is_fallback\<close> set.
\<close>

theorem empty_result_forces_fallback:
  assumes "sales_data env = Some data" and "the_llm_client env = Some client"
    and "schema_info env data = Inr info"
    and "generate_sql client user_query info = Inr llm_response"
    and "validate_and_sanitize_sql U llm_response = Inr sql"
    and "db_execute env sql = Inr rows" and "df_rows rows = []"
  shows "process_user_query U env user_query =
     \<lparr> executed_sql = Some (fst (find_best_template U user_query)),
       result_df = execute_sql_query env (fst (find_best_template U user_query)),
       is_fallback = True,
       template_name = Some (snd (find_best_template U user_query)),
       engine_calls = [sql, fst (find_best_template U user_query)] \<rparr>"
  using assms
  by (simp add: process_user_query_def try_generated_sql_def execute_sql_query_def df_empty_def
      split_beta)

theorem empty_result_forces_fallback_witness:
  "is_fallback (process_user_query caseless_db no_rows_environment (ascii ''hello''))
   \<and> engine_calls (process_user_query caseless_db no_rows_environment (ascii ''hello''))
       = [ascii ''SELECT 1'', fst (find_best_template caseless_db (ascii ''hello''))]"
proof -
  have "process_user_query caseless_db no_rows_environment (ascii ''hello'') =
     \<lparr> executed_sql = Some (fst (find_best_template caseless_db (ascii ''hello''))),
       result_df = execute_sql_query no_rows_environment
          (fst (find_best_template caseless_db (ascii ''hello''))),
       is_fallback = True,
       template_name = Some (snd (find_best_template caseless_db (ascii ''hello''))),
       engine_calls = [ascii ''SELECT 1'', fst (find_best_template caseless_db (ascii ''hello''))] \<rparr>"
    by (rule empty_result_forces_fallback
          [where data = one_row_result and client = failing_summary_client and info = "[]"
             and llm_response = select_one_response and rows = no_rows_result])
       (simp_all add: no_rows_environment_def failing_summary_client_def no_rows_result_def
          select_one_validated)
  then show ?thesis by simp
qed

section \<open>The summary\<close>

lemma join_lines_head: "l \<noteq> [] \<Longrightarrow> hd (join_lines (l # ls)) = hd l"
  by (cases ls) auto

lemma fallback_summary_head:
  "\<not> df_empty result \<Longrightarrow> hd (create_fallback_summary P q sql result name) = 8226"
  by (simp add: create_fallback_summary_def records_line_def join_lines_head)

lemma summary_failure_general:
  assumes "\<not> df_empty result"
    and "generate_summary client q sql (head_to_csv P result) = Inl e"
  shows "generate_analysis_summary P (Some client) q sql result False None
           = summary_error_prefix @ e
         \<and> generate_analysis_summary P (Some client) q sql result False None
           \<noteq> create_fallback_summary P q sql result None"
proof -
  have a: "generate_analysis_summary P (Some client) q sql result False None
           = summary_error_prefix @ e"
    using assms
    by (simp add: generate_analysis_summary_def generate_summary_with_llm_def truthy_def)
  have "hd (summary_error_prefix @ e) = 12469" by (simp add: summary_error_prefix_def)
  moreover have "hd (create_fallback_summary P q sql result None) = 8226"
    using assms(1) by (rule fallback_summary_head)
  ultimately show ?thesis using a by auto
qed

text \<open>
  C6 asks that a failing summary call degrade to the rule-based summary with no error
  in the returned text. With a client whose summary call raises \<open>timeout\<close>, a result of
  one row and no fallback, the returned summary is the error message followed by the
  text of the exception; the rule-based summary would have been the line of the row
  count.
\<close>

theorem summary_failure_is_surfaced:
  "generate_analysis_summary plain_pandas (Some failing_summary_client) (ascii ''total revenue'')
      (ascii ''SELECT SUM(revenue) AS total_revenue FROM sales'') one_row_result False None
     = summary_error_prefix @ ascii ''timeout''
   \<and> create_fallback_summary plain_pandas (ascii ''total revenue'')
      (ascii ''SELECT SUM(revenue) AS total_revenue FROM sales'') one_row_result None
     = records_line 1
   \<and> summary_error_prefix @ ascii ''timeout'' \<noteq> records_line 1"
  by (simp add: generate_analysis_summary_def generate_summary_with_llm_def
      create_fallback_summary_def df_empty_def one_row_result_def failing_summary_client_def
      plain_pandas_def truthy_def summary_error_prefix_def records_line_def)

section \<open>Extraction\<close>

lemma sanitize_sql_EmptyQuery: "sanitize_sql U sql = Inl EmptyQuery \<Longrightarrow> sql = []"
  by (auto simp: sanitize_sql_def Let_def split: if_splits option.splits)

lemma validate_never_EmptyQuery: "validate_and_sanitize_sql U response \<noteq> Inl EmptyQuery"
  by (auto simp: validate_and_sanitize_sql_def split: option.splits if_splits
      dest: sanitize_sql_EmptyQuery)

lemma startswith_ignorecase_append:
  "startswith_ignorecase U s pat \<Longrightarrow> startswith_ignorecase U (s @ t) pat"
  by (induction U s pat rule: startswith_ignorecase.induct) auto

lemma startswith_append: "startswith (p @ t) p"
  by (induction p) auto

lemma not_space_backquote: "\<not> py_isspace 96"
  by (simp add: py_isspace_def)

lemma dropWhile_spaces_append:
  "\<forall>c\<in>set ws. py_isspace c \<Longrightarrow> dropWhile py_isspace (ws @ 96 # t) = 96 # t"
  by (induction ws) (auto simp: not_space_backquote)

lemma ascii_fence: "ascii ''```'' = [96, 96, 96]"
  by (simp add: ascii_def)

lemma blank_block_here:
  assumes "startswith_ignorecase U opening (ascii ''```sql'')" and "length opening = 6"
    and "\<forall>c\<in>set ws. py_isspace c"
  shows "block_here U (opening @ ws @ ascii ''```'' @ post) = Some []"
proof -
  have "ws @ ascii ''```'' @ post = ws @ 96 # (96 # 96 # post)"
    by (simp add: ascii_fence)
  then have "dropWhile py_isspace (ws @ ascii ''```'' @ post) = 96 # 96 # 96 # post"
    using dropWhile_spaces_append [OF assms(3)] by simp
  moreover have "lazy_group (96 # 96 # 96 # post) = Some []"
    by (simp add: closing_fence_def not_space_backquote ascii_fence)
  ultimately show ?thesis
    using assms(1,2) by (simp add: block_here_def startswith_ignorecase_append)
qed

lemma first_sql_block_skip:
  assumes "\<And>i. i < length pre \<Longrightarrow> \<not> startswith_ignorecase U (drop i (pre @ s)) (ascii ''```sql'')"
  shows "first_sql_block U (pre @ s) = first_sql_block U s"
  using assms
proof (induction pre)
  case Nil
  then show ?case by simp
next
  case (Cons c pre)
  have "\<not> startswith_ignorecase U (drop 0 ((c # pre) @ s)) (ascii ''```sql'')"
    by (rule Cons.prems) simp
  then have here: "block_here U (c # pre @ s) = None"
    by (simp add: block_here_def)
  have "\<And>i. i < length pre \<Longrightarrow> \<not> startswith_ignorecase U (drop i (pre @ s)) (ascii ''```sql'')"
    using Cons.prems [of "Suc _"] by simp
  then have "first_sql_block U (pre @ s) = first_sql_block U s" by (rule Cons.IH)
  with here show ?case by simp
qed

text \<open>
  C10, as stated: every response that contains a fenced SQL block with blank content
  fails with the error of a missing block. The source reads only the first match of
  the pattern: a response whose first block holds \<open>SELECT 1\<close> and whose second block is
  blank is validated to \<open>SELECT 1\<close>.
\<close>

theorem blank_block_after_real_block:
  "two_block_response = select_one_response @ [10] @ ascii ''```sql'' @ [10] @ ascii ''```''
   \<and> validate_and_sanitize_sql caseless_db two_block_response = Inr (ascii ''SELECT 1'')
   \<and> validate_and_sanitize_sql caseless_db two_block_response \<noteq> Inl NoSqlBlockFound"
  by (simp add: two_block_response_def select_one_response_def guard_eval)

text \<open>
  C10, amended: when the first opening fence of a response is followed by nothing but
  whitespace up to a closing fence, \<open>validate_and_sanitize_sql\<close> fails with the error of a
  missing block; and it fails with \<open>EmptyQuery\<close> for no response at all, since it hands
  \<open>sanitize_sql\<close> only non-empty text.
\<close>

theorem blank_block_is_no_block:
  assumes "\<And>i. i < length pre \<Longrightarrow>
             \<not> startswith_ignorecase U (drop i (pre @ opening @ ws @ ascii ''```'' @ post))
                 (ascii ''```sql'')"
    and "startswith_ignorecase U opening (ascii ''```sql'')" and "length opening = 6"
    and "\<forall>c\<in>set ws. py_isspace c"
  shows "validate_and_sanitize_sql U (pre @ opening @ ws @ ascii ''```'' @ post)
           = Inl NoSqlBlockFound
         \<and> validate_and_sanitize_sql U response \<noteq> Inl EmptyQuery"
proof -
  let ?s = "opening @ ws @ ascii ''```'' @ post"
  have "first_sql_block U (pre @ ?s) = first_sql_block U ?s"
    using assms(1) by (rule first_sql_block_skip)
  moreover have "first_sql_block U ?s = Some []"
  proof (cases ?s)
    case Nil
    with assms(3) show ?thesis by simp
  next
    case (Cons c cs)
    have "block_here U ?s = Some []" using assms(2-4) by (rule blank_block_here)
    with Cons show ?thesis by simp
  qed
  ultimately have "extract_sql_from_response U (pre @ ?s) = Some []"
    by (simp add: extract_sql_from_response_def strip_def lstrip_def rstrip_def)
  then have "validate_and_sanitize_sql U (pre @ ?s) = Inl NoSqlBlockFound"
    by (simp add: validate_and_sanitize_sql_def)
  then show ?thesis
    using validate_never_EmptyQuery by blast
qed

theorem blank_block_is_no_block_witness:
  "validate_and_sanitize_sql caseless_db blank_block_response = Inl NoSqlBlockFound"
proof -
  have a: "\<And>i. i < length (ascii ''Here: '') \<Longrightarrow>
      \<not> startswith_ignorecase caseless_db
          (drop i (ascii ''Here: '' @ ascii ''```SQL'' @ [10, 32, 32, 10] @ ascii ''```'' @ ascii '' done''))
          (ascii ''```sql'')"
  proof -
    fix i :: nat assume "i < length (ascii ''Here: '')"
    then have "i \<in> {0, 1, 2, 3, 4, 5}" by (auto simp: ascii_def)
    then show "\<not> startswith_ignorecase caseless_db
          (drop i (ascii ''Here: '' @ ascii ''```SQL'' @ [10, 32, 32, 10] @ ascii ''```'' @ ascii '' done''))
          (ascii ''```sql'')"
      by (auto simp: ascii_def ignorecase_match_def ascii_letter_def)
  qed
  have b: "startswith_ignorecase caseless_db (ascii ''```SQL'') (ascii ''```sql'')"
    by (simp add: ascii_def ignorecase_match_def ascii_letter_def ascii_lower_def)
  have c: "length (ascii ''```SQL'') = 6" by (simp add: ascii_def)
  have d: "\<forall>c\<in>set [10, 32, 32, 10]. py_isspace c" by (simp add: py_isspace_def)
  from blank_block_is_no_block [OF a b c d]
  show ?thesis by (simp add: blank_block_response_def)
qed

section \<open>Validating a validated query again\<close>

lemma sanitize_sql_Inr_iff:
  "sanitize_sql U sql = Inr r \<longleftrightarrow> sql \<noteq> [] \<and> r = normalize_sql sql \<and> passes_checks U r"
  by (auto simp: sanitize_sql_def passes_checks_def Let_def split: if_splits option.splits)

subsection \<open>sub_runs\<close>

lemma sub_runs_keep: "\<not> P d \<Longrightarrow> sub_runs P (d # cs) = d # sub_runs P cs"
  by (cases cs) auto

lemma single_spaced_keep: "\<not> P c \<Longrightarrow> single_spaced P (c # y) = single_spaced P y"
  by (cases y) auto

lemma single_spaced_sub_runs: "P 32 \<Longrightarrow> single_spaced P (sub_runs P x)"
proof (induction P x rule: sub_runs.induct)
  case (3 P c d cs)
  show ?case
  proof (cases "P c")
    case True
    show ?thesis
    proof (cases "P d")
      case True
      with \<open>P c\<close> 3 show ?thesis by simp
    next
      case False
      with \<open>P c\<close> 3 show ?thesis by (simp add: sub_runs_keep)
    qed
  next
    case False
    with 3 show ?thesis by (simp add: single_spaced_keep)
  qed
qed auto

lemma sub_runs_single_spaced: "single_spaced P x \<Longrightarrow> sub_runs P x = x"
  by (induction P x rule: sub_runs.induct) (auto split: if_splits)

lemma sub_runs_none: "\<forall>c\<in>set x. \<not> P c \<Longrightarrow> sub_runs P x = x"
  by (induction P x rule: sub_runs.induct) auto

lemma single_spaced_tail: "single_spaced P (c # y) \<Longrightarrow> single_spaced P y"
  by (cases y) (auto split: if_splits)

lemma single_spaced_suffix: "single_spaced P (xs @ ys) \<Longrightarrow> single_spaced P ys"
  by (induction xs) (auto dest: single_spaced_tail)

lemma single_spaced_prefix: "single_spaced P (xs @ ys) \<Longrightarrow> single_spaced P xs"
proof (induction P xs rule: single_spaced.induct)
  case (2 P c)
  then show ?case by (cases ys) (auto split: if_splits)
qed (auto split: if_splits)

lemma single_spaced_chars: "single_spaced P x \<Longrightarrow> c \<in> set x \<Longrightarrow> P c \<Longrightarrow> c = 32"
  by (induction P x rule: single_spaced.induct) (auto split: if_splits)

lemma lstrip_single:
  assumes "single_spaced py_isspace r"
  shows "r = lstrip r \<or> r = 32 # lstrip r"
proof (cases r)
  case Nil
  then show ?thesis by (simp add: lstrip_def)
next
  case (Cons c y)
  show ?thesis
  proof (cases "py_isspace c")
    case False
    with Cons show ?thesis by (simp add: lstrip_def)
  next
    case True
    show ?thesis
    proof (cases y)
      case Nil
      with Cons True assms show ?thesis by (simp add: lstrip_def)
    next
      case (Cons d z)
      with \<open>r = c # y\<close> True assms show ?thesis by (simp add: lstrip_def)
    qed
  qed
qed

lemma rstrip_snoc: "py_isspace b \<Longrightarrow> rstrip (z @ [b]) = rstrip z"
  by (simp add: rstrip_def)

lemma rstrip_keep: "\<not> py_isspace b \<Longrightarrow> rstrip (z @ [b]) = z @ [b]"
  by (simp add: rstrip_def)

lemma rstrip_single:
  assumes "single_spaced py_isspace y"
  shows "y = rstrip y \<or> y = rstrip y @ [32]"
proof (cases y rule: rev_cases)
  case Nil
  then show ?thesis by (simp add: rstrip_def)
next
  case (snoc z b)
  show ?thesis
  proof (cases "py_isspace b")
    case False
    with snoc show ?thesis by (simp add: rstrip_keep)
  next
    case True
    from assms snoc have "single_spaced py_isspace [b]"
      by (auto dest: single_spaced_suffix)
    with True have b: "b = 32" by simp
    show ?thesis
    proof (cases z rule: rev_cases)
      case Nil
      with snoc True b show ?thesis by (simp add: rstrip_def)
    next
      case (snoc z' a)
      with \<open>y = z @ [b]\<close> assms have "single_spaced py_isspace (z' @ [a, b])" by simp
      then have "single_spaced py_isspace [a, b]" by (rule single_spaced_suffix)
      with True have "\<not> py_isspace a" by (auto split: if_splits)
      with snoc have "rstrip z = z" by (simp add: rstrip_keep)
      with \<open>y = z @ [b]\<close> True b show ?thesis by (simp add: rstrip_snoc)
    qed
  qed
qed

lemma lstrip_suffix: "\<exists>xs. r = xs @ lstrip r"
  unfolding lstrip_def by (metis takeWhile_dropWhile_id)

lemma rstrip_prefix: "\<exists>ys. y = rstrip y @ ys"
proof -
  have "rev (takeWhile py_isspace (rev y) @ dropWhile py_isspace (rev y)) = rev (rev y)"
    by (simp only: takeWhile_dropWhile_id)
  then have "y = rstrip y @ rev (takeWhile py_isspace (rev y))"
    by (simp only: rev_append rev_rev_ident rstrip_def)
  then show ?thesis ..
qed

lemma single_spaced_strip: "single_spaced P r \<Longrightarrow> single_spaced P (strip r)"
proof -
  assume a: "single_spaced P r"
  obtain xs where "r = xs @ lstrip r" using lstrip_suffix by blast
  with a have b: "single_spaced P (lstrip r)" by (metis single_spaced_suffix)
  obtain ys where "lstrip r = rstrip (lstrip r) @ ys" using rstrip_prefix by blast
  with b show ?thesis unfolding strip_def by (metis single_spaced_prefix)
qed

lemma set_strip: "set (strip r) \<subseteq> set r"
proof -
  obtain xs where x: "r = xs @ lstrip r" using lstrip_suffix by blast
  obtain ys where y: "lstrip r = rstrip (lstrip r) @ ys" using rstrip_prefix by blast
  have "set (strip r) \<subseteq> set (lstrip r)" unfolding strip_def using y
    by (metis Un_upper1 set_append)
  also have "\<dots> \<subseteq> set r" using x by (metis Un_upper2 set_append)
  finally show ?thesis .
qed

lemma rstrip_semicolons_none: "59 \<notin> set x \<Longrightarrow> rstrip_semicolons x = x"
proof -
  assume "59 \<notin> set x"
  then have "dropWhile (\<lambda>c. c = 59) (rev x) = rev x"
    by (cases "rev x") (auto simp: in_set_conv_decomp)
  then show ?thesis by (simp add: rstrip_semicolons_def)
qed

lemma strip_strip: "strip (strip r) = strip r"
proof -
  let ?y = "lstrip r"
  have 1: "lstrip (rstrip ?y) = rstrip ?y"
  proof (cases "rstrip ?y")
    case Nil then show ?thesis by (simp add: lstrip_def)
  next
    case (Cons c z)
    obtain ys where y: "?y = rstrip ?y @ ys" using rstrip_prefix by blast
    with Cons have "hd ?y = c" by (metis append_Cons list.sel(1))
    moreover have "?y \<noteq> []" using y Cons by auto
    then have "\<not> py_isspace (hd ?y)" unfolding lstrip_def by (rule hd_dropWhile)
    ultimately show ?thesis using Cons by (simp add: lstrip_def)
  qed
  have 2: "rstrip (rstrip ?y) = rstrip ?y"
  proof (cases "dropWhile py_isspace (rev ?y)")
    case Nil then show ?thesis by (simp add: rstrip_def)
  next
    case (Cons c z)
    then have "\<not> py_isspace c" by (metis hd_dropWhile list.sel(1) list.distinct(1))
    with Cons show ?thesis by (simp add: rstrip_def)
  qed
  show ?thesis by (simp add: strip_def 1 2)
qed

lemma normalize_sql_single_spaced: "single_spaced py_isspace (normalize_sql s)"
  unfolding normalize_sql_def by (rule single_spaced_sub_runs) (simp add: py_isspace_def)

lemma normalize_sql_again:
  assumes "r = normalize_sql s" and "59 \<notin> set r"
  shows "normalize_sql r = strip r"
proof -
  have ss: "single_spaced py_isspace r" using assms(1) by (simp add: normalize_sql_single_spaced)
  have no10: "10 \<notin> set r"
  proof
    assume "10 \<in> set r"
    with ss have "(10::nat) = 32" by (rule single_spaced_chars) (simp add: py_isspace_def)
    then show False by simp
  qed
  let ?r' = "strip r"
  have sub: "set ?r' \<subseteq> set r" by (rule set_strip)
  have a: "sub_runs (\<lambda>c. c = 10) ?r' = ?r'"
    using sub no10 by (intro sub_runs_none) auto
  have b: "sub_trailing_semicolons ?r' = ?r'"
  proof -
    have "59 \<notin> set ?r'" using sub assms(2) by auto
    then have "rstrip_semicolons ?r' = ?r'" by (rule rstrip_semicolons_none)
    moreover have "\<not> (?r' \<noteq> [] \<and> last ?r' = 10)"
      using sub no10 last_in_set by fastforce
    ultimately show ?thesis by (auto simp: sub_trailing_semicolons_def)
  qed
  have c: "sub_runs py_isspace ?r' = ?r'"
    using ss by (intro sub_runs_single_spaced single_spaced_strip)
  show ?thesis
    by (simp add: normalize_sql_def [of r] strip_strip a b c)
qed

lemma space_is_space: "py_isspace 32"
  by (simp add: py_isspace_def)

lemma not_word_space: "\<not> is_word U 32"
  by (simp add: is_word_def ascii_alnum_def)

lemma py_upper_Nil: "py_upper U [] = []"
  by (simp add: py_upper_def)

lemma py_upper_cons_space: "py_upper U (32 # c) = 32 # py_upper U c"
  by (simp add: py_upper_def upper_char_def ascii_upper_def)

lemma py_upper_snoc_space: "py_upper U (c @ [32]) = py_upper U c @ [32]"
  by (simp add: py_upper_def upper_char_def ascii_upper_def)

subsection \<open>A space in front or behind: the text tests\<close>

lemma startswith_append_left: "startswith s p \<Longrightarrow> startswith (s @ t) p"
  by (induction s p rule: startswith.induct) auto

lemma startswith_length: "startswith s p \<Longrightarrow> length p \<le> length s"
  by (induction s p rule: startswith.induct) auto

lemma startswith_snoc_iff:
  "kw \<noteq> [] \<Longrightarrow> 32 \<notin> set kw \<Longrightarrow> startswith (s @ [32]) kw = startswith s kw"
proof (induction s kw rule: startswith.induct)
  case (3 c cs p ps)
  then show ?case by (cases ps) auto
qed auto

lemma contains_Nil: "contains [] t"
  by (cases t) auto

lemma contains_snoc: "contains p c \<Longrightarrow> contains p (c @ t)"
proof (induction c)
  case Nil
  then show ?case by (simp add: contains_Nil)
next
  case (Cons a c)
  from Cons.prems have "startswith (a # c) p \<or> contains p c" by simp
  then show ?case
  proof
    assume "startswith (a # c) p"
    then have "startswith ((a # c) @ t) p" by (rule startswith_append_left)
    then show ?thesis by simp
  next
    assume "contains p c"
    then have "contains p (c @ t)" by (rule Cons.IH)
    then show ?thesis by simp
  qed
qed

lemma strip_cons_space: "strip (32 # x) = strip x"
  by (simp add: strip_def lstrip_def space_is_space)

lemma strip_snoc_space: "strip (x @ [32]) = strip x"
proof (cases "\<forall>c\<in>set x. py_isspace c")
  case True
  then have "strip x = []" and "strip (x @ [32]) = []"
    by (simp_all add: strip_Nil_iff space_is_space)
  then show ?thesis by simp
next
  case False
  then have "lstrip (x @ [32]) = lstrip x @ [32]"
    by (auto simp: lstrip_def dropWhile_append1)
  then show ?thesis by (simp add: strip_def rstrip_snoc space_is_space)
qed

subsection \<open>A space in front or behind: the keyword search\<close>

lemma keyword_here_prev:
  "is_word_opt U p = is_word_opt U p' \<Longrightarrow> keyword_here U kw p s = keyword_here U kw p' s"
  by (simp add: keyword_here_def boundary_def last_opt_def)

lemma search_keyword_from_prev:
  "is_word_opt U p = is_word_opt U p' \<Longrightarrow>
     search_keyword_from U kw p s = search_keyword_from U kw p' s"
  by (cases s) (simp_all add: keyword_here_prev [of U p p'])

lemma search_keyword_cons_space:
  "search_keyword U kw u \<Longrightarrow> search_keyword U kw (32 # u)"
proof -
  have "search_keyword_from U kw (Some 32) u = search_keyword_from U kw None u"
    by (rule search_keyword_from_prev) (simp add: is_word_opt_def not_word_space)
  then show "search_keyword U kw u \<Longrightarrow> search_keyword U kw (32 # u)"
    by (simp add: search_keyword_def)
qed

lemma keyword_here_snoc:
  assumes "kw \<noteq> []" and "keyword_here U kw prev s"
  shows "keyword_here U kw prev (s @ [32])"
proof -
  from assms(2) have st: "startswith s kw" by (simp add: keyword_here_def)
  then have len: "length kw \<le> length s" by (rule startswith_length)
  with assms(1) have ne: "s \<noteq> []" by auto
  then have h: "head_opt (s @ [32]) = head_opt s" by (cases s) (simp_all add: head_opt_def)
  have d: "drop (length kw) (s @ [32]) = drop (length kw) s @ [32]" using len by simp
  have e: "is_word_opt U (head_opt (drop (length kw) s @ [32]))
         = is_word_opt U (head_opt (drop (length kw) s))"
    by (cases "drop (length kw) s") (simp_all add: head_opt_def is_word_opt_def not_word_space)
  from assms(2) show ?thesis
    unfolding keyword_here_def h d boundary_def e
    by (simp add: startswith_append_left)
qed

lemma search_keyword_from_snoc:
  "kw \<noteq> [] \<Longrightarrow> search_keyword_from U kw prev s \<Longrightarrow> search_keyword_from U kw prev (s @ [32])"
proof (induction s arbitrary: prev)
  case Nil
  then show ?case by (cases kw) (simp_all add: keyword_here_def)
next
  case (Cons c cs)
  from Cons.prems(2) have "keyword_here U kw prev (c # cs) \<or> search_keyword_from U kw (Some c) cs"
    by simp
  then show ?case
  proof
    assume "keyword_here U kw prev (c # cs)"
    then have "keyword_here U kw prev ((c # cs) @ [32])"
      using Cons.prems(1) by (intro keyword_here_snoc)
    then show ?thesis by simp
  next
    assume "search_keyword_from U kw (Some c) cs"
    then have "search_keyword_from U kw (Some c) (cs @ [32])"
      using Cons.prems(1) by (intro Cons.IH)
    then show ?thesis by simp
  qed
qed

lemma search_keyword_snoc_space:
  "kw \<noteq> [] \<Longrightarrow> search_keyword U kw u \<Longrightarrow> search_keyword U kw (u @ [32])"
  unfolding search_keyword_def by (rule search_keyword_from_snoc)

subsection \<open>A space in front or behind: the table scan\<close>

lemma table_here_prev:
  "is_word_opt U p = is_word_opt U p' \<Longrightarrow> table_here U bnd kw p s = table_here U bnd kw p' s"
  by (simp add: table_here_def boundary_def)

lemma findall_tables_from_prev:
  "is_word_opt U p = is_word_opt U p' \<Longrightarrow>
     findall_tables_from U bnd kw p s = findall_tables_from U bnd kw p' s"
  by (cases s) (simp_all add: table_here_prev [of U p p'])

lemma findall_tables_cons_space:
  assumes "kw \<noteq> []" and "32 \<notin> set kw"
  shows "findall_tables U bnd kw (32 # u) = findall_tables U bnd kw u"
proof -
  from assms have "\<not> startswith (32 # u) kw" by (cases kw) auto
  then have "table_here U bnd kw None (32 # u) = None" by (simp add: table_here_def)
  moreover have "findall_tables_from U bnd kw (Some 32) u = findall_tables_from U bnd kw None u"
    by (rule findall_tables_from_prev) (simp add: is_word_opt_def not_word_space)
  ultimately show ?thesis by (simp add: findall_tables_def)
qed

lemma takeWhile_snoc_not: "\<not> P a \<Longrightarrow> takeWhile P (xs @ [a]) = takeWhile P xs"
  by (induction xs) auto

lemma dropWhile_snoc_not: "\<not> P a \<Longrightarrow> dropWhile P (xs @ [a]) = dropWhile P xs @ [a]"
  by (induction xs) auto

lemma table_here_snoc:
  assumes "kw \<noteq> []" and "32 \<notin> set kw"
  shows "table_here U bnd kw prev (s @ [32])
         = map_option (\<lambda>(w, rest). (w, rest @ [32])) (table_here U bnd kw prev s)"
proof (cases "startswith s kw")
  case False
  with assms show ?thesis by (simp add: table_here_def startswith_snoc_iff)
next
  case True
  then have len: "length kw \<le> length s" by (rule startswith_length)
  with assms(1) have ne: "s \<noteq> []" by auto
  then have h: "head_opt (s @ [32]) = head_opt s" by (cases s) (simp_all add: head_opt_def)
  let ?r = "drop (length kw) s"
  have d: "drop (length kw) (s @ [32]) = ?r @ [32]" using len by simp
  have st: "startswith (s @ [32]) kw" using True by (rule startswith_append_left)
  show ?thesis
  proof (cases "\<forall>c\<in>set ?r. py_isspace c")
    case True
    then have a: "dropWhile py_isspace ?r = []"
      and b: "dropWhile py_isspace (?r @ [32]) = []"
      by (simp_all add: space_is_space)
    show ?thesis using st \<open>startswith s kw\<close>
      unfolding table_here_def h d Let_def a b by simp
  next
    case False
    then have dw: "dropWhile py_isspace (?r @ [32]) = dropWhile py_isspace ?r @ [32]"
      by (auto simp: dropWhile_append1)
    from False have tw: "takeWhile py_isspace (?r @ [32]) = takeWhile py_isspace ?r"
      by (auto simp: takeWhile_append1)
    show ?thesis using st \<open>startswith s kw\<close>
      unfolding table_here_def h d Let_def dw tw
      by (simp add: takeWhile_snoc_not dropWhile_snoc_not not_word_space)
  qed
qed

lemma findall_tables_from_snoc:
  "kw \<noteq> [] \<Longrightarrow> 32 \<notin> set kw \<Longrightarrow>
     findall_tables_from U bnd kw prev (s @ [32]) = findall_tables_from U bnd kw prev s"
proof (induction U bnd kw prev s rule: findall_tables_from.induct)
  case (1 U bnd kw prev)
  have "table_here U bnd kw prev [32] = None"
    using table_here_snoc [OF "1.prems", where s = "[]" and U = U and bnd = bnd and prev = prev]
      "1.prems"
    by (cases kw) (simp_all add: table_here_def)
  then show ?case by simp
next
  case (2 U bnd kw prev c cs)
  have th: "table_here U bnd kw prev (c # cs @ [32])
        = map_option (\<lambda>(w, rest). (w, rest @ [32])) (table_here U bnd kw prev (c # cs))"
    using table_here_snoc [OF "2.prems", where s = "c # cs" and U = U and bnd = bnd
        and prev = prev] by simp
  show ?case
  proof (cases "table_here U bnd kw prev (c # cs)")
    case None
    then have "findall_tables_from U bnd kw (Some c) (cs @ [32])
             = findall_tables_from U bnd kw (Some c) cs"
      using "2.prems" by (intro "2.IH"(1))
    with None th show ?thesis by simp
  next
    case (Some x)
    obtain w rest where x: "x = (w, rest)" by (cases x)
    have "findall_tables_from U bnd kw (Some (last w)) (rest @ [32])
        = findall_tables_from U bnd kw (Some (last w)) rest"
      using Some x "2.prems" by (intro "2.IH"(2)) auto
    with Some x th show ?thesis by simp
  qed
qed

lemma findall_tables_snoc_space:
  "kw \<noteq> [] \<Longrightarrow> 32 \<notin> set kw \<Longrightarrow> findall_tables U bnd kw (u @ [32]) = findall_tables U bnd kw u"
  unfolding findall_tables_def by (rule findall_tables_from_snoc)

subsection \<open>The checks on a padded text\<close>

lemma forbidden_keywords_plain: "kw \<in> set forbidden_keywords \<Longrightarrow> kw \<noteq> []"
  by (auto simp: forbidden_keywords_def ascii_def)

lemma passes_checks_cons_space:
  assumes "passes_checks U (32 # c)"
  shows "passes_checks U c"
proof -
  let ?u = "py_upper U c"
  have up: "py_upper U (32 # c) = 32 # ?u" by (rule py_upper_cons_space)
  have fa: "\<And>bnd kw. kw \<in> {ascii ''FROM'', ascii ''JOIN''} \<Longrightarrow>
      findall_tables U bnd kw (32 # ?u) = findall_tables U bnd kw ?u"
    by (rule findall_tables_cons_space) (auto simp: ascii_def)
  have kw: "\<And>kw. search_keyword U kw ?u \<Longrightarrow> search_keyword U kw (32 # ?u)"
    by (rule search_keyword_cons_space)
  from assms show ?thesis
    unfolding passes_checks_def up
    by (auto simp: strip_cons_space fa find_None_iff dest: kw split: if_splits)
qed

lemma passes_checks_snoc_space:
  assumes "passes_checks U (c @ [32])"
  shows "passes_checks U c"
proof -
  let ?u = "py_upper U c"
  have up: "py_upper U (c @ [32]) = ?u @ [32]" by (rule py_upper_snoc_space)
  have fa: "\<And>bnd kw. kw \<in> {ascii ''FROM'', ascii ''JOIN''} \<Longrightarrow>
      findall_tables U bnd kw (?u @ [32]) = findall_tables U bnd kw ?u"
    by (rule findall_tables_snoc_space) (auto simp: ascii_def)
  have kw: "\<And>kw. kw \<noteq> [] \<Longrightarrow> search_keyword U kw ?u \<Longrightarrow> search_keyword U kw (?u @ [32])"
    by (rule search_keyword_snoc_space)
  have j: "ascii ''JOIN'' \<noteq> []" by (simp add: ascii_def)
  from assms show ?thesis
    unfolding passes_checks_def up
    by (auto simp: strip_snoc_space fa find_None_iff
        dest: kw [OF forbidden_keywords_plain] kw [OF j] contains_snoc split: if_splits)
qed

lemma passes_checks_strip:
  assumes "single_spaced py_isspace r" and "passes_checks U r"
  shows "passes_checks U (strip r)"
proof -
  have "passes_checks U (lstrip r)"
    using lstrip_single [OF assms(1)] assms(2) by (metis passes_checks_cons_space)
  moreover have "single_spaced py_isspace (lstrip r)"
    using assms(1) lstrip_suffix [of r] by (metis single_spaced_suffix)
  ultimately show ?thesis
    unfolding strip_def using rstrip_single [of "lstrip r"]
    by (metis passes_checks_snoc_space)
qed

lemma passes_checks_nonempty: "passes_checks U r \<Longrightarrow> r \<noteq> []"
  by (auto simp: passes_checks_def py_upper_def strip_def lstrip_def rstrip_def ascii_def)

text \<open>
  C9, as stated: validating a validated query again returns it unchanged. The candidate
  \<open>SELECT 1 ;\<close> is validated to \<open>SELECT 1\<close> followed by a space, since the text is
  stripped before the semicolon is removed; validating that again returns \<open>SELECT 1\<close>.
\<close>

theorem revalidation_changes_text:
  "sanitize_sql caseless_db (ascii ''SELECT 1 ;'') = Inr (ascii ''SELECT 1 '')
   \<and> sanitize_sql caseless_db (ascii ''SELECT 1 '') = Inr (ascii ''SELECT 1'')
   \<and> sanitize_sql caseless_db (ascii ''SELECT 1 '') \<noteq> Inr (ascii ''SELECT 1 '')"
  by (simp add: guard_eval)

text \<open>
  C9, amended: validating a validated query again succeeds and returns it stripped of
  surrounding whitespace (at most the one space that a removed semicolon left behind);
  the stripped query is returned unchanged by every further validation.
\<close>

theorem revalidation_strips:
  assumes "sanitize_sql U s = Inr r"
  shows "sanitize_sql U r = Inr (strip r) \<and> sanitize_sql U (strip r) = Inr (strip r)"
proof -
  have step: "sanitize_sql U x = Inr (strip x)" if "sanitize_sql U y = Inr x" for x y
  proof -
    from that have n: "x = normalize_sql y" and p: "passes_checks U x"
      unfolding sanitize_sql_Inr_iff by blast+
    have ss: "single_spaced py_isspace x" using n by (simp add: normalize_sql_single_spaced)
    have "59 \<notin> set x" using p by (simp add: passes_checks_def)
    with n have "normalize_sql x = strip x" by (rule normalize_sql_again)
    moreover have "passes_checks U (strip x)" using ss p by (rule passes_checks_strip)
    moreover have "x \<noteq> []" using p by (rule passes_checks_nonempty)
    ultimately show ?thesis by (simp add: sanitize_sql_Inr_iff)
  qed
  have a: "sanitize_sql U r = Inr (strip r)" using assms by (rule step)
  then have "sanitize_sql U (strip r) = Inr (strip (strip r))" by (rule step)
  with a show ?thesis by (simp add: strip_strip)
qed

theorem revalidation_strips_witness:
  "sanitize_sql caseless_db (ascii ''SELECT 1 '') = Inr (strip (ascii ''SELECT 1 ''))
   \<and> sanitize_sql caseless_db (strip (ascii ''SELECT 1 '')) = Inr (strip (ascii ''SELECT 1 ''))"
proof -
  have h: "sanitize_sql caseless_db (ascii ''SELECT 1 ;'') = Inr (ascii ''SELECT 1 '')"
    by (simp add: guard_eval)
  show ?thesis using revalidation_strips [OF h] .
qed

section \<open>What a validated query contains\<close>

lemma startswith_decomp: "startswith s p \<Longrightarrow> s = p @ drop (length p) s"
  by (induction s p rule: startswith.induct) auto

lemma contains_iff: "contains p s \<longleftrightarrow> (\<exists>a b. s = a @ p @ b)"
proof
  assume "contains p s"
  then show "\<exists>a b. s = a @ p @ b"
  proof (induction s)
    case Nil
    then show ?case by simp
  next
    case (Cons c cs)
    from Cons.prems have "startswith (c # cs) p \<or> contains p cs" by simp
    then show ?case
    proof
      assume "startswith (c # cs) p"
      then have "c # cs = [] @ p @ drop (length p) (c # cs)"
        using startswith_decomp by simp
      then show ?thesis by blast
    next
      assume "contains p cs"
      then obtain a b where "cs = a @ p @ b" using Cons.IH by blast
      then have "c # cs = (c # a) @ p @ b" by simp
      then show ?thesis by blast
    qed
  qed
next
  assume "\<exists>a b. s = a @ p @ b"
  then obtain a b where s: "s = a @ p @ b" by blast
  have "contains p (a @ p @ b)"
  proof (induction a)
    case Nil
    have sp: "startswith p p" using startswith_append [of p "[]"] by simp
    have "contains p p" using sp by (cases p) simp_all
    then show ?case using contains_snoc [of p p b] by simp
  next
    case (Cons x a)
    then show ?case by simp
  qed
  with s show "contains p s" by simp
qed

subsection \<open>Occurrences of a table clause\<close>

lemma word_not_space: "is_word U c \<Longrightarrow> \<not> py_isspace c"
  by (auto simp: is_word_def py_isspace_def ascii_alnum_def split: if_splits)

lemma takeWhile_run:
  "\<forall>c\<in>set xs. P c \<Longrightarrow> r = [] \<or> \<not> P (hd r) \<Longrightarrow> takeWhile P (xs @ r) = xs"
  by (cases r) (auto simp: takeWhile_append2)

lemma dropWhile_run:
  "\<forall>c\<in>set xs. P c \<Longrightarrow> r = [] \<or> \<not> P (hd r) \<Longrightarrow> dropWhile P (xs @ r) = r"
  by (cases r) (auto simp: dropWhile_append2)

text \<open>The pattern matches where the keyword, whitespace and a whole word stand.\<close>

lemma table_here_at:
  assumes "kw \<noteq> []" and "\<forall>c\<in>set kw. is_word U c" and "\<not> is_word_opt U prev"
    and "ws \<noteq> []" and "\<forall>c\<in>set ws. py_isspace c"
    and "w \<noteq> []" and "\<forall>c\<in>set w. is_word U c"
    and "post = [] \<or> \<not> is_word U (hd post)"
  shows "table_here U bnd kw prev (kw @ ws @ w @ post) = Some (w, post)"
proof -
  let ?s = "kw @ ws @ w @ post"
  have hd: "head_opt ?s = Some (hd kw)" using assms(1) by (cases kw) (simp_all add: head_opt_def)
  have "is_word U (hd kw)" using assms(1,2) by (metis hd_in_set)
  with assms(3) have b: "boundary U prev (head_opt ?s)"
    by (simp add: hd boundary_def is_word_opt_def)
  have st: "startswith ?s kw" by (rule startswith_append)
  have d: "drop (length kw) ?s = ws @ w @ post" by simp
  have "\<not> py_isspace (hd w)" using assms(6,7) by (metis hd_in_set word_not_space)
  then have r: "w @ post = [] \<or> \<not> py_isspace (hd (w @ post))" using assms(6) by simp
  have tw: "takeWhile py_isspace (ws @ w @ post) = ws"
    using assms(5) r by (rule takeWhile_run)
  have dw: "dropWhile py_isspace (ws @ w @ post) = w @ post"
    using assms(5) r by (rule dropWhile_run)
  have tw2: "takeWhile (is_word U) (w @ post) = w"
    using assms(7,8) by (rule takeWhile_run)
  have dw2: "dropWhile (is_word U) (w @ post) = post"
    using assms(7,8) by (rule dropWhile_run)
  show ?thesis
    unfolding table_here_def d Let_def tw dw tw2 dw2
    using b st assms(4,6) by simp
qed

text \<open>A match of the pattern is the keyword, whitespace and a whole word.\<close>

lemma table_here_SomeD:
  assumes "table_here U bnd kw prev s = Some (w, rest)"
  shows "\<exists>ws. s = kw @ ws @ w @ rest \<and> ws \<noteq> [] \<and> (\<forall>c\<in>set ws. py_isspace c)
           \<and> w \<noteq> [] \<and> (\<forall>c\<in>set w. is_word U c) \<and> (rest = [] \<or> \<not> is_word U (hd rest))"
proof -
  let ?r = "drop (length kw) s"
  let ?r' = "dropWhile py_isspace ?r"
  from assms have st: "startswith s kw" and ws: "takeWhile py_isspace ?r \<noteq> []"
    and w: "w = takeWhile (is_word U) ?r'" "w \<noteq> []" and rest: "rest = dropWhile (is_word U) ?r'"
    by (auto simp: table_here_def Let_def split: if_splits)
  have "s = kw @ ?r" using st by (rule startswith_decomp)
  also have "?r = takeWhile py_isspace ?r @ ?r'" by simp
  also have "?r' = w @ rest" unfolding w rest by simp
  finally have "s = kw @ takeWhile py_isspace ?r @ w @ rest" .
  moreover have "\<forall>c\<in>set (takeWhile py_isspace ?r). py_isspace c"
    by (auto dest: set_takeWhileD)
  moreover have "\<forall>c\<in>set w. is_word U c" unfolding w by (auto dest: set_takeWhileD)
  moreover have "rest = [] \<or> \<not> is_word U (hd rest)"
    unfolding rest by (metis hd_dropWhile)
  ultimately show ?thesis using ws w(2) by blast
qed

lemma word_prefix_unique:
  assumes "xs @ r1 = ys @ r2" and "\<forall>c\<in>set xs. P c" and "\<forall>c\<in>set ys. P c"
    and "r1 = [] \<or> \<not> P (hd r1)" and "r2 = [] \<or> \<not> P (hd r2)"
  shows "xs = ys"
proof -
  have "takeWhile P (xs @ r1) = xs" using assms(2,4) by (rule takeWhile_run)
  moreover have "takeWhile P (ys @ r2) = ys" using assms(3,5) by (rule takeWhile_run)
  ultimately show ?thesis using assms(1) by simp
qed

text \<open>
  A match whose table is accepted ends before the next place where the keyword follows
  a non-word character: the scan, which resumes after the match, still meets that place.
\<close>

lemma next_occurrence:
  assumes kw: "kw \<noteq> []" "\<forall>c\<in>set kw. is_word U c" "py_upper U kw \<noteq> ascii ''SALES''"
    and m: "s = kw @ ws1 @ w1 @ rest" "\<forall>c\<in>set ws1. py_isspace c"
      "w1 \<noteq> []" "\<forall>c\<in>set w1. is_word U c" "rest = [] \<or> \<not> is_word U (hd rest)"
    and ok: "py_upper U w1 = ascii ''SALES''"
    and occ: "s = pre @ kw @ ws @ w @ post" "pre \<noteq> []" "\<not> is_word U (last pre)"
      "ws \<noteq> []" "\<forall>c\<in>set ws. py_isspace c"
  shows "\<exists>pre'. rest = pre' @ kw @ ws @ w @ post \<and> pre' \<noteq> [] \<and> \<not> is_word U (last pre')"
proof -
  let ?t = "kw @ ws @ w @ post"
  let ?M = "kw @ ws1 @ w1"
  have lastM: "is_word U (last ?M)" using m(3,4) by simp
  have hdt: "is_word U (hd ?t)" using kw(1,2) by (cases kw) auto
  have tail: "ws @ w @ post = [] \<or> \<not> is_word U (hd (ws @ w @ post))"
    using occ(4,5) by (cases ws) (auto dest: word_not_space)
  \<comment> \<open>the keyword cannot start at the first character of the matched word\<close>
  have not_w1: False if "?t = w1 @ rest"
  proof -
    from that have "w1 @ rest = kw @ (ws @ w @ post)" by simp
    then have "w1 = kw" using m(4) kw(2) m(5) tail by (rule word_prefix_unique)
    with ok kw(3) show False by simp
  qed
  from m(1) occ(1) have "pre @ ?t = ?M @ rest" by simp
  then obtain us where "pre = ?M @ us \<and> us @ ?t = rest \<or> pre @ us = ?M \<and> ?t = us @ rest"
    unfolding append_eq_append_conv2 by blast
  then show ?thesis
  proof
    assume A: "pre = ?M @ us \<and> us @ ?t = rest"
    have "us \<noteq> []"
    proof
      assume "us = []"
      with A have "last pre = last ?M" by simp
      with lastM occ(3) show False by simp
    qed
    moreover from this A have "last us = last pre" by simp
    ultimately show ?thesis using A occ(3) by auto
  next
    assume B: "pre @ us = ?M \<and> ?t = us @ rest"
    have us: "us \<noteq> []"
    proof
      assume "us = []"
      with B have "last pre = last ?M" by simp
      with lastM occ(3) show False by simp
    qed
    with B hdt have hdus: "is_word U (hd us)" by (cases us) auto
    from B have "pre @ us = (kw @ ws1) @ w1" by simp
    then obtain v where
      "pre = (kw @ ws1) @ v \<and> v @ us = w1 \<or> pre @ v = kw @ ws1 \<and> us = v @ w1"
      unfolding append_eq_append_conv2 by blast
    then have False
    proof
      assume B1: "pre = (kw @ ws1) @ v \<and> v @ us = w1"
      show False
      proof (cases "v = []")
        case True
        with B1 B have "?t = w1 @ rest" by simp
        then show False by (rule not_w1)
      next
        case False
        with B1 have "last pre = last v" and "last v \<in> set w1" by auto
        with m(4) occ(3) show False by simp
      qed
    next
      assume B2: "pre @ v = kw @ ws1 \<and> us = v @ w1"
      show False
      proof (cases "v = []")
        case True
        with B2 B have "?t = w1 @ rest" by simp
        then show False by (rule not_w1)
      next
        case False
        with B2 hdus have hdv: "is_word U (hd v)" by (cases v) auto
        from B2 obtain x where
          "pre = kw @ x \<and> x @ v = ws1 \<or> pre @ x = kw \<and> v = x @ ws1"
          unfolding append_eq_append_conv2 by blast
        then show False
        proof
          assume "pre = kw @ x \<and> x @ v = ws1"
          with False have "hd v \<in> set ws1" by auto
          with m(2) have "py_isspace (hd v)" by simp
          with hdv show False by (auto dest: word_not_space)
        next
          assume "pre @ x = kw \<and> v = x @ ws1"
          with occ(2) have "last pre \<in> set kw" by auto
          with kw(2) occ(3) show False by simp
        qed
      qed
    qed
    then show ?thesis ..
  qed
qed

lemma check_tables_Cons:
  "check_tables U (x # xs) = None \<longleftrightarrow> py_upper U x = ascii ''SALES'' \<and> check_tables U xs = None"
  by (simp add: check_tables_def)

text \<open>
  Every place of the text where the keyword follows a non-word character and is followed
  by whitespace and a word is reported by the scan, or lies behind a rejected table.
\<close>

lemma findall_covers:
  "check_tables U (findall_tables_from U bnd kw prev s) = None \<Longrightarrow>
   kw \<noteq> [] \<Longrightarrow> \<forall>c\<in>set kw. is_word U c \<Longrightarrow> py_upper U kw \<noteq> ascii ''SALES'' \<Longrightarrow>
   s = pre @ kw @ ws @ w @ post \<Longrightarrow> \<not> is_word_opt U (last_opt prev pre) \<Longrightarrow>
   ws \<noteq> [] \<Longrightarrow> \<forall>c\<in>set ws. py_isspace c \<Longrightarrow>
   w \<noteq> [] \<Longrightarrow> \<forall>c\<in>set w. is_word U c \<Longrightarrow> post = [] \<or> \<not> is_word U (hd post) \<Longrightarrow>
   py_upper U w = ascii ''SALES''"
proof (induction U bnd kw prev s arbitrary: pre rule: findall_tables_from.induct)
  case (1 U bnd kw prev)
  then show ?case by simp
next
  case (2 U bnd kw prev c cs)
  note prems = "2.prems"
  show ?case
  proof (cases pre)
    case Nil
    with prems(5,6) have s: "c # cs = kw @ ws @ w @ post" and np: "\<not> is_word_opt U prev"
      by (simp_all add: last_opt_def)
    have "table_here U bnd kw prev (c # cs) = Some (w, post)"
      unfolding s using prems(2,3) np prems(7-11) by (rule table_here_at)
    with prems(1) show ?thesis by (simp add: check_tables_Cons)
  next
    case (Cons p pre')
    with prems(5) have cs: "cs = pre' @ kw @ ws @ w @ post" by simp
    from Cons prems(5) have cp: "c = p" by simp
    have bd': "\<not> is_word_opt U (last_opt (Some c) pre')"
      using prems(6) Cons cp by (simp add: last_opt_def split: if_splits)
    show ?thesis
    proof (cases "table_here U bnd kw prev (c # cs)")
      case None
      with prems(1) have "check_tables U (findall_tables_from U bnd kw (Some c) cs) = None"
        by simp
      then show ?thesis
        using prems(2-4) cs bd' prems(7-11) by (rule "2.IH"(1) [OF None])
    next
      case (Some x)
      obtain w1 rest where x: "x = (w1, rest)" by (cases x)
      from Some x prems(1) have ok: "py_upper U w1 = ascii ''SALES''"
        and chk: "check_tables U (findall_tables_from U bnd kw (Some (last w1)) rest) = None"
        by (simp_all add: check_tables_Cons)
      from Some x obtain ws1 where m: "c # cs = kw @ ws1 @ w1 @ rest"
        "\<forall>c\<in>set ws1. py_isspace c" "w1 \<noteq> []" "\<forall>c\<in>set w1. is_word U c"
        "rest = [] \<or> \<not> is_word U (hd rest)"
        using table_here_SomeD [of U bnd kw prev "c # cs" w1 rest] by blast
      have pne: "pre \<noteq> []" using Cons by simp
      with prems(6) have lp: "\<not> is_word U (last pre)"
        by (simp add: last_opt_def is_word_opt_def)
      obtain pre'' where r: "rest = pre'' @ kw @ ws @ w @ post" and ne: "pre'' \<noteq> []"
        and l: "\<not> is_word U (last pre'')"
        using next_occurrence [OF prems(2-4) m ok prems(5) pne lp prems(7,8)] by blast
      have bd'': "\<not> is_word_opt U (last_opt (Some (last w1)) pre'')"
        using ne l by (simp add: last_opt_def is_word_opt_def)
      show ?thesis
        using chk prems(2-4) r bd'' prems(7-11) by (rule "2.IH"(2) [OF Some x [symmetric]])
    qed
  qed
qed

lemma search_keyword_from_at:
  "kw \<noteq> [] \<Longrightarrow> \<forall>c\<in>set kw. is_word U c \<Longrightarrow> \<not> is_word_opt U (last_opt prev pre) \<Longrightarrow>
   ws \<noteq> [] \<Longrightarrow> \<forall>c\<in>set ws. py_isspace c \<Longrightarrow>
   search_keyword_from U kw prev (pre @ kw @ ws @ rest)"
proof (induction pre arbitrary: prev)
  case Nil
  let ?s = "kw @ ws @ rest"
  have hd: "head_opt ?s = Some (hd kw)" using Nil(1) by (cases kw) (simp_all add: head_opt_def)
  have "is_word U (hd kw)" using Nil(1,2) by (metis hd_in_set)
  with Nil(3) have b1: "boundary U prev (head_opt ?s)"
    by (simp add: hd boundary_def is_word_opt_def last_opt_def)
  have st: "startswith ?s kw" by (rule startswith_append)
  have "is_word U (last kw)" using Nil(1,2) by (metis last_in_set)
  moreover have "\<not> is_word U (hd ws)" using Nil(4,5) by (metis hd_in_set word_not_space)
  moreover have "head_opt (drop (length kw) ?s) = Some (hd ws)"
    using Nil(4) by (cases ws) (simp_all add: head_opt_def)
  ultimately have b2: "boundary U (last_opt prev kw) (head_opt (drop (length kw) ?s))"
    using Nil(1) by (simp add: boundary_def is_word_opt_def last_opt_def)
  have "keyword_here U kw prev ?s" using b1 st b2 by (simp add: keyword_here_def)
  then show ?case using Nil(1) by (cases kw) auto
next
  case (Cons p pre)
  have "\<not> is_word_opt U (last_opt (Some p) pre)"
    using Cons.prems(3) by (simp add: last_opt_def split: if_splits)
  then have "search_keyword_from U kw (Some p) (pre @ kw @ ws @ rest)"
    using Cons.prems by (intro Cons.IH)
  then show ?case by simp
qed

lemma from_join_plain:
  assumes "kw = ascii ''FROM'' \<or> kw = ascii ''JOIN''"
  shows "kw \<noteq> []" and "\<forall>c\<in>set kw. is_word U c" and "py_upper U kw \<noteq> ascii ''SALES''"
  using assms
  by (auto simp: ascii_def is_word_def ascii_alnum_def py_upper_def upper_char_def ascii_upper_def)

text \<open>
  What the checks do establish of a returned query: it has no semicolon, no \<open>--\<close> and no
  \<open>/*\<close>; and wherever in its upper-cased text the keyword \<open>FROM\<close> or \<open>JOIN\<close> follows a
  non-word character and is followed by whitespace and a whole word, the upper-cased
  form of that word is \<open>SALES\<close>. Nothing is established of a table that is not the word
  directly after the keyword.
\<close>

theorem validated_query_is_clean:
  assumes "sanitize_sql U sql = Inr q"
  shows "59 \<notin> set q
     \<and> \<not> (\<exists>a b. q = a @ ascii ''--'' @ b) \<and> \<not> (\<exists>a b. q = a @ ascii ''/*'' @ b)
     \<and> (\<forall>kw pre ws w post.
          (kw = ascii ''FROM'' \<or> kw = ascii ''JOIN'')
          \<and> py_upper U q = pre @ kw @ ws @ w @ post
          \<and> (pre = [] \<or> \<not> is_word U (last pre))
          \<and> ws \<noteq> [] \<and> (\<forall>c\<in>set ws. py_isspace c)
          \<and> w \<noteq> [] \<and> (\<forall>c\<in>set w. is_word U c)
          \<and> (post = [] \<or> \<not> is_word U (hd post))
          \<longrightarrow> py_upper U w = ascii ''SALES'')"
proof -
  from assms have p: "passes_checks U q" unfolding sanitize_sql_Inr_iff by blast
  let ?u = "py_upper U q"
  have a: "59 \<notin> set q" and b: "\<not> contains (ascii ''--'') q" and c: "\<not> contains (ascii ''/*'') q"
    using p by (simp_all add: passes_checks_def)
  have d: "py_upper U w = ascii ''SALES''"
    if kw: "kw = ascii ''FROM'' \<or> kw = ascii ''JOIN''"
      and dec: "?u = pre @ kw @ ws @ w @ post"
      and bd: "pre = [] \<or> \<not> is_word U (last pre)"
      and ws: "ws \<noteq> []" "\<forall>c\<in>set ws. py_isspace c"
      and w: "w \<noteq> []" "\<forall>c\<in>set w. is_word U c"
      and post: "post = [] \<or> \<not> is_word U (hd post)"
    for kw pre ws w post
  proof -
    note k = from_join_plain [OF kw]
    have bd': "\<not> is_word_opt U (last_opt None pre)"
      using bd by (auto simp: last_opt_def is_word_opt_def)
    have chk: "check_tables U (findall_tables_from U (kw = ascii ''FROM'') kw None ?u) = None"
    proof (cases "kw = ascii ''FROM''")
      case True
      with p show ?thesis by (simp add: passes_checks_def findall_tables_def)
    next
      case False
      with kw have j: "kw = ascii ''JOIN''" by simp
      have "search_keyword_from U kw None (pre @ kw @ ws @ (w @ post))"
        using k(1,2) bd' ws by (rule search_keyword_from_at)
      then have "search_keyword U (ascii ''JOIN'') ?u"
        using dec j by (simp add: search_keyword_def)
      with p j False show ?thesis
        by (simp add: passes_checks_def findall_tables_def ascii_def)
    qed
    from chk k dec bd' ws w post show ?thesis by (rule findall_covers)
  qed
  from a b c d show ?thesis unfolding contains_iff by blast
qed

theorem validated_query_is_clean_witness:
  "59 \<notin> set (ascii ''select * from Sales '')
   \<and> \<not> (\<exists>a b. ascii ''select * from Sales '' = a @ ascii ''--'' @ b)
   \<and> \<not> (\<exists>a b. ascii ''select * from Sales '' = a @ ascii ''/*'' @ b)
   \<and> py_upper caseless_db (ascii ''SALES'') = ascii ''SALES''"
proof -
  have h: "sanitize_sql caseless_db (ascii ''select * from Sales ;'')
             = Inr (ascii ''select * from Sales '')"
    by (simp add: guard_eval)
  note t = validated_query_is_clean [OF h]
  have "(ascii ''FROM'' = ascii ''FROM'' \<or> ascii ''FROM'' = ascii ''JOIN'')
      \<and> py_upper caseless_db (ascii ''select * from Sales '')
          = ascii ''SELECT * '' @ ascii ''FROM'' @ ascii '' '' @ ascii ''SALES'' @ ascii '' ''
      \<and> (ascii ''SELECT * '' = [] \<or> \<not> is_word caseless_db (last (ascii ''SELECT * '')))
      \<and> ascii '' '' \<noteq> [] \<and> (\<forall>c\<in>set (ascii '' ''). py_isspace c)
      \<and> ascii ''SALES'' \<noteq> [] \<and> (\<forall>c\<in>set (ascii ''SALES''). is_word caseless_db c)
      \<and> (ascii '' '' = [] \<or> \<not> is_word caseless_db (hd (ascii '' '')))"
    by (simp add: ascii_def py_upper_def upper_char_def ascii_upper_def is_word_def
        ascii_alnum_def py_isspace_def)
  with t have "py_upper caseless_db (ascii ''SALES'') = ascii ''SALES''" by blast
  with t show ?thesis by blast
qed

text \<open>
  C1 asks that a validated query name no table but \<open>sales\<close> in a \<open>FROM\<close> or \<open>JOIN\<close> clause,
  and the comments of the source say the same of the two table checks (access to tables
  other than sales is forbidden; joins with other tables are prevented). The patterns
  read only the word that directly follows the keyword: the query
  \<open>SELECT * FROM sales, users\<close> names the table \<open>users\<close> in its \<open>FROM\<close> clause and is
  returned as validated, by \<open>sanitize_sql\<close> and through a fenced block by
  \<open>validate_and_sanitize_sql\<close>, whatever the Unicode database.
\<close>

theorem other_table_is_accepted:
  "sanitize_sql U other_table_candidate = Inr other_table_candidate
   \<and> validate_and_sanitize_sql U other_table_response = Inr other_table_candidate"
  by (simp add: other_table_response_def other_table_candidate_def guard_eval)

section \<open>The queries handed to the engine\<close>

subsection \<open>Keywords as whole words\<close>

lemma tokens_run:
  "\<forall>c\<in>set xs. is_word U c \<Longrightarrow> tokens_from U acc (xs @ rest) = tokens_from U (rev xs @ acc) rest"
  by (induction xs arbitrary: acc) auto

lemma keyword_is_token:
  "search_keyword_from U kw prev s \<Longrightarrow> kw \<noteq> [] \<Longrightarrow> \<forall>c\<in>set kw. is_word U c \<Longrightarrow>
   (acc \<noteq> []) = is_word_opt U prev \<Longrightarrow> kw \<in> set (tokens_from U acc s)"
proof (induction s arbitrary: prev acc)
  case Nil
  then show ?case by (cases kw) (simp_all add: keyword_here_def)
next
  case (Cons c cs)
  from Cons.prems(1)
  have "keyword_here U kw prev (c # cs) \<or> search_keyword_from U kw (Some c) cs" by simp
  then show ?case
  proof
    assume k: "keyword_here U kw prev (c # cs)"
    then have st: "startswith (c # cs) kw" by (simp add: keyword_here_def)
    let ?rest = "drop (length kw) (c # cs)"
    have dec: "c # cs = kw @ ?rest" using st by (rule startswith_decomp)
    with Cons.prems(2) have "c = hd kw" by (cases kw) auto
    with Cons.prems(2,3) have wc: "is_word U c" by (metis hd_in_set)
    with k have "\<not> is_word_opt U prev"
      by (simp add: keyword_here_def boundary_def head_opt_def is_word_opt_def)
    with Cons.prems(4) have acc: "acc = []" by simp
    have "is_word U (last kw)" using Cons.prems(2,3) by (metis last_in_set)
    with k Cons.prems(2) have e: "\<not> is_word_opt U (head_opt ?rest)"
      by (simp add: keyword_here_def boundary_def last_opt_def is_word_opt_def)
    have "tokens_from U [] (kw @ ?rest) = tokens_from U (rev kw @ []) ?rest"
      using Cons.prems(3) by (rule tokens_run)
    moreover have "kw \<in> set (tokens_from U (rev kw) ?rest)"
      using e Cons.prems(2) by (cases ?rest) (simp_all add: head_opt_def is_word_opt_def)
    ultimately have "kw \<in> set (tokens_from U [] (kw @ ?rest))" by simp
    with dec acc show ?thesis by simp
  next
    assume s: "search_keyword_from U kw (Some c) cs"
    let ?acc = "if is_word U c then c # acc else []"
    have "(?acc \<noteq> []) = is_word_opt U (Some c)" by (simp add: is_word_opt_def)
    with s Cons.prems(2,3) have "kw \<in> set (tokens_from U ?acc cs)" by (rule Cons.IH)
    then show ?thesis by auto
  qed
qed

lemma search_keyword_token:
  assumes "search_keyword U kw s" and "kw \<noteq> []" and "\<forall>c\<in>set kw. is_word U c"
  shows "kw \<in> set (word_tokens U s)"
proof -
  have "(([]::pystr) \<noteq> []) = is_word_opt U None" by (simp add: is_word_opt_def)
  with assms show ?thesis
    unfolding search_keyword_def word_tokens_def by (intro keyword_is_token)
qed

lemma join_plain: "ascii ''JOIN'' \<noteq> []" "\<forall>c\<in>set (ascii ''JOIN''). is_word U c"
  by (simp_all add: ascii_def is_word_def ascii_alnum_def)

lemma findall_hit:
  "startswith (c # cs) kw \<Longrightarrow>
     findall_tables_from U bnd kw prev (c # cs) =
       (case table_here U bnd kw prev (c # cs) of
          Some (w, rest) \<Rightarrow> w # findall_tables_from U bnd kw (Some (last w)) rest
        | None \<Rightarrow> findall_tables_from U bnd kw (Some c) cs)"
  by simp

lemma forbidden_keywords_words: "kw \<in> set forbidden_keywords \<Longrightarrow> \<forall>c\<in>set kw. is_word U c"
  by (auto simp: forbidden_keywords_def ascii_def is_word_def ascii_alnum_def)

lemma findall_skip:
  "\<not> startswith (c # cs) kw \<Longrightarrow>
     findall_tables_from U bnd kw prev (c # cs) = findall_tables_from U bnd kw (Some c) cs"
  by (simp add: table_here_def)

subsection \<open>A text that the normalisation leaves alone\<close>

lemma rstrip_id: "s \<noteq> [] \<Longrightarrow> \<not> py_isspace (last s) \<Longrightarrow> rstrip s = s"
  by (cases s rule: rev_cases) (simp_all add: rstrip_keep)

lemma strip_id: "s \<noteq> [] \<Longrightarrow> \<not> py_isspace (hd s) \<Longrightarrow> \<not> py_isspace (last s) \<Longrightarrow> strip s = s"
  by (cases s) (simp_all add: strip_def lstrip_def rstrip_id)

lemma sub_trailing_semicolons_none:
  assumes "59 \<notin> set s" and "10 \<notin> set s"
  shows "sub_trailing_semicolons s = s"
proof -
  have "\<not> (s \<noteq> [] \<and> last s = 10)" using assms(2) last_in_set by fastforce
  then show ?thesis
    using assms(1) by (auto simp: sub_trailing_semicolons_def rstrip_semicolons_none)
qed

lemma rstrip_keeps_prefix:
  assumes "p \<noteq> []" and "\<not> py_isspace (last p)"
  shows "\<exists>r'. rstrip (p @ r) = p @ r'"
proof (cases "\<forall>c\<in>set r. py_isspace c")
  case True
  then have "dropWhile py_isspace (rev r @ rev p) = dropWhile py_isspace (rev p)"
    by (intro dropWhile_append2) simp
  also have "\<dots> = rev p" using assms by (cases p rule: rev_cases) simp_all
  finally show ?thesis by (simp add: rstrip_def)
next
  case False
  then have "dropWhile py_isspace (rev r @ rev p) = dropWhile py_isspace (rev r) @ rev p"
    by (auto simp: dropWhile_append1)
  then show ?thesis by (simp add: rstrip_def)
qed

lemma startswith_strip:
  assumes "startswith u p" and "p \<noteq> []" and "\<not> py_isspace (hd p)" and "\<not> py_isspace (last p)"
  shows "startswith (strip u) p"
proof -
  obtain r where u: "u = p @ r" using startswith_decomp [OF assms(1)] by blast
  obtain a p' where p: "p = a # p'" using assms(2) by (cases p) simp_all
  have l: "lstrip u = u" using assms(3) unfolding u p lstrip_def by simp
  obtain r' where r': "rstrip (p @ r) = p @ r'"
    using rstrip_keeps_prefix [OF assms(2,4)] by blast
  have "strip u = p @ r'" unfolding strip_def l unfolding u r' ..
  then show ?thesis by (simp only: startswith_append)
qed

lemma source_lines_nonempty: "ls \<noteq> [] \<Longrightarrow> last ls \<noteq> [] \<Longrightarrow> source_lines ls \<noteq> []"
  by (induction ls rule: source_lines.induct) (auto simp: ascii_def)

lemma last_source_lines:
  "ls \<noteq> [] \<Longrightarrow> last ls \<noteq> [] \<Longrightarrow> last (source_lines ls) = of_char (last (last ls))"
proof (induction ls rule: source_lines.induct)
  case (3 l l' ls)
  then have "source_lines (l' # ls) \<noteq> []" by (intro source_lines_nonempty) auto
  with 3 show ?case by simp
qed (auto simp: ascii_def last_map)

text \<open>The checks of the Guard, discharged from facts that evaluate quickly.\<close>

lemma sanitize_sql_accepts:
  assumes "sql \<noteq> []" and "\<not> py_isspace (hd sql)" and "\<not> py_isspace (last sql)"
    and "59 \<notin> set sql"
    and "sub_runs py_isspace (sub_runs (\<lambda>c. c = 10) sql) = c"
    and "py_upper U c = u"
    and "startswith u (ascii ''SELECT'')"
    and "list_all (\<lambda>kw. kw \<notin> set (word_tokens U u)) (ascii ''JOIN'' # forbidden_keywords)"
    and "\<not> contains (ascii ''--'') c" and "\<not> contains (ascii ''/*'') c"
    and "findall_tables U True (ascii ''FROM'') u = [ascii ''SALES'']"
  shows "sanitize_sql U sql = Inr c"
proof -
  let ?x = "sub_runs (\<lambda>c. c = 10) sql"
  have s: "strip sql = sql" using assms(1-3) by (rule strip_id)
  have "59 \<notin> set ?x" and "10 \<notin> set ?x" using assms(4) by (auto dest: sub_runs_chars)
  then have t: "sub_trailing_semicolons ?x = ?x" by (rule sub_trailing_semicolons_none)
  have n: "normalize_sql sql = c" by (simp add: normalize_sql_def s t assms(5))
  have semi: "59 \<notin> set c" using \<open>59 \<notin> set ?x\<close> assms(5) by (auto dest: sub_runs_chars)
  have 1: "startswith (strip u) (ascii ''SELECT'')"
    using assms(7) by (rule startswith_strip) (simp_all add: ascii_def py_isspace_def)
  have "\<not> search_keyword U kw u" if "kw \<in> set (ascii ''JOIN'' # forbidden_keywords)" for kw
  proof
    assume s: "search_keyword U kw u"
    from that have "kw \<noteq> []" and "\<forall>c\<in>set kw. is_word U c"
      using forbidden_keywords_plain [of kw] forbidden_keywords_words [of kw U]
        join_plain(1) join_plain(2) [of U] by auto
    with s have "kw \<in> set (word_tokens U u)" by (rule search_keyword_token)
    with assms(8) that show False by (auto simp: list_all_iff)
  qed
  then have 2: "find (\<lambda>keyword. search_keyword U keyword u) forbidden_keywords = None"
    and 3: "\<not> search_keyword U (ascii ''JOIN'') u"
    by (auto simp: find_None_iff)
  have 4: "check_tables U [ascii ''SALES''] = None"
    by (simp add: check_tables_def py_upper_def upper_char_def ascii_upper_def ascii_def)
  have "passes_checks U c"
    unfolding passes_checks_def assms(6) using 1 2 3 4 semi assms(9-11) by simp
  with assms(1) n show ?thesis by (simp add: sanitize_sql_Inr_iff)
qed

subsection \<open>The four templates and the default query\<close>

lemmas upper_eval = py_upper_def upper_char_def ascii_upper_def ascii_def
lemmas token_eval = word_tokens_def is_word_def ascii_alnum_def forbidden_keywords_def ascii_def
lemmas findall_eval = findall_tables_def findall_skip findall_hit table_here_def boundary_def
  is_word_opt_def head_opt_def is_word_def ascii_alnum_def py_isspace_def ascii_def Let_def

lemma monthly_category_sql_accepted:
  "sanitize_sql U (tpl_sql monthly_category_template) =
     Inr (ascii ''SELECT date_trunc('month', date) AS month, category, SUM(revenue) AS total_revenue, SUM(units) AS total_units FROM sales GROUP BY date_trunc('month', date), category ORDER BY month, category'')"
proof -
  let ?sql = "tpl_sql monthly_category_template"
  let ?c = "ascii ''SELECT date_trunc('month', date) AS month, category, SUM(revenue) AS total_revenue, SUM(units) AS total_units FROM sales GROUP BY date_trunc('month', date), category ORDER BY month, category''"
  let ?u = "ascii ''SELECT DATE_TRUNC('MONTH', DATE) AS MONTH, CATEGORY, SUM(REVENUE) AS TOTAL_REVENUE, SUM(UNITS) AS TOTAL_UNITS FROM SALES GROUP BY DATE_TRUNC('MONTH', DATE), CATEGORY ORDER BY MONTH, CATEGORY''"
  have "?sql \<noteq> []"
    by (simp add: monthly_category_template_def ascii_def)
  moreover have "\<not> py_isspace (hd ?sql)"
    by (simp add: monthly_category_template_def ascii_def py_isspace_def)
  moreover have "\<not> py_isspace (last ?sql)"
    by (simp add: monthly_category_template_def last_source_lines py_isspace_def del: source_lines.simps)
  moreover have "59 \<notin> set ?sql"
    by (simp add: monthly_category_template_def ascii_def)
  moreover have "sub_runs py_isspace (sub_runs (\<lambda>c. c = 10) ?sql) = ?c"
    by (simp add: monthly_category_template_def ascii_def py_isspace_def)
  moreover have "py_upper U ?c = ?u"
    by (simp add: upper_eval)
  moreover have "startswith ?u (ascii ''SELECT'')"
    by (simp add: ascii_def)
  moreover have "list_all (\<lambda>kw. kw \<notin> set (word_tokens U ?u))
      (ascii ''JOIN'' # forbidden_keywords)"
    by (simp add: token_eval)
  moreover have "\<not> contains (ascii ''--'') ?c"
    by (simp add: ascii_def)
  moreover have "\<not> contains (ascii ''/*'') ?c"
    by (simp add: ascii_def)
  moreover have "findall_tables U True (ascii ''FROM'') ?u = [ascii ''SALES'']"
    by (simp add: findall_eval del: findall_tables_from.simps(2))
  ultimately show ?thesis by (rule sanitize_sql_accepts)
qed

lemma channel_sql_accepted:
  "sanitize_sql U (tpl_sql channel_template) =
     Inr (ascii ''SELECT sales_channel, SUM(revenue) AS total_revenue, SUM(units) AS total_units, COUNT(*) AS transaction_count FROM sales GROUP BY sales_channel ORDER BY total_revenue DESC'')"
proof -
  let ?sql = "tpl_sql channel_template"
  let ?c = "ascii ''SELECT sales_channel, SUM(revenue) AS total_revenue, SUM(units) AS total_units, COUNT(*) AS transaction_count FROM sales GROUP BY sales_channel ORDER BY total_revenue DESC''"
  let ?u = "ascii ''SELECT SALES_CHANNEL, SUM(REVENUE) AS TOTAL_REVENUE, SUM(UNITS) AS TOTAL_UNITS, COUNT(*) AS TRANSACTION_COUNT FROM SALES GROUP BY SALES_CHANNEL ORDER BY TOTAL_REVENUE DESC''"
  have "?sql \<noteq> []"
    by (simp add: channel_template_def ascii_def)
  moreover have "\<not> py_isspace (hd ?sql)"
    by (simp add: channel_template_def ascii_def py_isspace_def)
  moreover have "\<not> py_isspace (last ?sql)"
    by (simp add: channel_template_def last_source_lines py_isspace_def del: source_lines.simps)
  moreover have "59 \<notin> set ?sql"
    by (simp add: channel_template_def ascii_def)
  moreover have "sub_runs py_isspace (sub_runs (\<lambda>c. c = 10) ?sql) = ?c"
    by (simp add: channel_template_def ascii_def py_isspace_def)
  moreover have "py_upper U ?c = ?u"
    by (simp add: upper_eval)
  moreover have "startswith ?u (ascii ''SELECT'')"
    by (simp add: ascii_def)
  moreover have "list_all (\<lambda>kw. kw \<notin> set (word_tokens U ?u))
      (ascii ''JOIN'' # forbidden_keywords)"
    by (simp add: token_eval)
  moreover have "\<not> contains (ascii ''--'') ?c"
    by (simp add: ascii_def)
  moreover have "\<not> contains (ascii ''/*'') ?c"
    by (simp add: ascii_def)
  moreover have "findall_tables U True (ascii ''FROM'') ?u = [ascii ''SALES'']"
    by (simp add: findall_eval del: findall_tables_from.simps(2))
  ultimately show ?thesis by (rule sanitize_sql_accepts)
qed

lemma region_sql_accepted:
  "sanitize_sql U (tpl_sql region_template) =
     Inr (ascii ''SELECT region, SUM(revenue) AS total_revenue, SUM(units) AS total_units, COUNT(*) AS transaction_count FROM sales GROUP BY region ORDER BY total_revenue DESC'')"
proof -
  let ?sql = "tpl_sql region_template"
  let ?c = "ascii ''SELECT region, SUM(revenue) AS total_revenue, SUM(units) AS total_units, COUNT(*) AS transaction_count FROM sales GROUP BY region ORDER BY total_revenue DESC''"
  let ?u = "ascii ''SELECT REGION, SUM(REVENUE) AS TOTAL_REVENUE, SUM(UNITS) AS TOTAL_UNITS, COUNT(*) AS TRANSACTION_COUNT FROM SALES GROUP BY REGION ORDER BY TOTAL_REVENUE DESC''"
  have "?sql \<noteq> []"
    by (simp add: region_template_def ascii_def)
  moreover have "\<not> py_isspace (hd ?sql)"
    by (simp add: region_template_def ascii_def py_isspace_def)
  moreover have "\<not> py_isspace (last ?sql)"
    by (simp add: region_template_def last_source_lines py_isspace_def del: source_lines.simps)
  moreover have "59 \<notin> set ?sql"
    by (simp add: region_template_def ascii_def)
  moreover have "sub_runs py_isspace (sub_runs (\<lambda>c. c = 10) ?sql) = ?c"
    by (simp add: region_template_def ascii_def py_isspace_def)
  moreover have "py_upper U ?c = ?u"
    by (simp add: upper_eval)
  moreover have "startswith ?u (ascii ''SELECT'')"
    by (simp add: ascii_def)
  moreover have "list_all (\<lambda>kw. kw \<notin> set (word_tokens U ?u))
      (ascii ''JOIN'' # forbidden_keywords)"
    by (simp add: token_eval)
  moreover have "\<not> contains (ascii ''--'') ?c"
    by (simp add: ascii_def)
  moreover have "\<not> contains (ascii ''/*'') ?c"
    by (simp add: ascii_def)
  moreover have "findall_tables U True (ascii ''FROM'') ?u = [ascii ''SALES'']"
    by (simp add: findall_eval del: findall_tables_from.simps(2))
  ultimately show ?thesis by (rule sanitize_sql_accepts)
qed

lemma customer_segment_sql_accepted:
  "sanitize_sql U (tpl_sql customer_segment_template) =
     Inr (ascii ''SELECT customer_segment, SUM(revenue) AS total_revenue, SUM(units) AS total_units, COUNT(*) AS transaction_count FROM sales GROUP BY customer_segment ORDER BY total_revenue DESC'')"
proof -
  let ?sql = "tpl_sql customer_segment_template"
  let ?c = "ascii ''SELECT customer_segment, SUM(revenue) AS total_revenue, SUM(units) AS total_units, COUNT(*) AS transaction_count FROM sales GROUP BY customer_segment ORDER BY total_revenue DESC''"
  let ?u = "ascii ''SELECT CUSTOMER_SEGMENT, SUM(REVENUE) AS TOTAL_REVENUE, SUM(UNITS) AS TOTAL_UNITS, COUNT(*) AS TRANSACTION_COUNT FROM SALES GROUP BY CUSTOMER_SEGMENT ORDER BY TOTAL_REVENUE DESC''"
  have "?sql \<noteq> []"
    by (simp add: customer_segment_template_def ascii_def)
  moreover have "\<not> py_isspace (hd ?sql)"
    by (simp add: customer_segment_template_def ascii_def py_isspace_def)
  moreover have "\<not> py_isspace (last ?sql)"
    by (simp add: customer_segment_template_def last_source_lines py_isspace_def del: source_lines.simps)
  moreover have "59 \<notin> set ?sql"
    by (simp add: customer_segment_template_def ascii_def)
  moreover have "sub_runs py_isspace (sub_runs (\<lambda>c. c = 10) ?sql) = ?c"
    by (simp add: customer_segment_template_def ascii_def py_isspace_def)
  moreover have "py_upper U ?c = ?u"
    by (simp add: upper_eval)
  moreover have "startswith ?u (ascii ''SELECT'')"
    by (simp add: ascii_def)
  moreover have "list_all (\<lambda>kw. kw \<notin> set (word_tokens U ?u))
      (ascii ''JOIN'' # forbidden_keywords)"
    by (simp add: token_eval)
  moreover have "\<not> contains (ascii ''--'') ?c"
    by (simp add: ascii_def)
  moreover have "\<not> contains (ascii ''/*'') ?c"
    by (simp add: ascii_def)
  moreover have "findall_tables U True (ascii ''FROM'') ?u = [ascii ''SALES'']"
    by (simp add: findall_eval del: findall_tables_from.simps(2))
  ultimately show ?thesis by (rule sanitize_sql_accepts)
qed

lemma default_sql_accepted:
  "sanitize_sql U (get_default_query) =
     Inr (ascii ''SELECT SUM(revenue) AS total_revenue, SUM(units) AS total_units, COUNT(*) AS total_transactions FROM sales'')"
proof -
  let ?sql = "get_default_query"
  let ?c = "ascii ''SELECT SUM(revenue) AS total_revenue, SUM(units) AS total_units, COUNT(*) AS total_transactions FROM sales''"
  let ?u = "ascii ''SELECT SUM(REVENUE) AS TOTAL_REVENUE, SUM(UNITS) AS TOTAL_UNITS, COUNT(*) AS TOTAL_TRANSACTIONS FROM SALES''"
  have "?sql \<noteq> []"
    by (simp add: get_default_query_def ascii_def)
  moreover have "\<not> py_isspace (hd ?sql)"
    by (simp add: get_default_query_def ascii_def py_isspace_def)
  moreover have "\<not> py_isspace (last ?sql)"
    by (simp add: get_default_query_def last_source_lines py_isspace_def del: source_lines.simps)
  moreover have "59 \<notin> set ?sql"
    by (simp add: get_default_query_def ascii_def)
  moreover have "sub_runs py_isspace (sub_runs (\<lambda>c. c = 10) ?sql) = ?c"
    by (simp add: get_default_query_def ascii_def py_isspace_def)
  moreover have "py_upper U ?c = ?u"
    by (simp add: upper_eval)
  moreover have "startswith ?u (ascii ''SELECT'')"
    by (simp add: ascii_def)
  moreover have "list_all (\<lambda>kw. kw \<notin> set (word_tokens U ?u))
      (ascii ''JOIN'' # forbidden_keywords)"
    by (simp add: token_eval)
  moreover have "\<not> contains (ascii ''--'') ?c"
    by (simp add: ascii_def)
  moreover have "\<not> contains (ascii ''/*'') ?c"
    by (simp add: ascii_def)
  moreover have "findall_tables U True (ascii ''FROM'') ?u = [ascii ''SALES'']"
    by (simp add: findall_eval del: findall_tables_from.simps(2))
  ultimately show ?thesis by (rule sanitize_sql_accepts)
qed

subsection \<open>The sources of an executed query\<close>

lemma find_in_set: "find P xs = Some x \<Longrightarrow> x \<in> set xs"
  by (induction xs) (auto split: if_splits)

lemma select_template_source:
  "fst (select_template U templates q) \<in> set (get_default_query # map tpl_sql templates)"
  unfolding select_template_spec spec_resolve_def Let_def
  by (auto split: option.splits dest: find_in_set)

lemma prevalidated_sql_accepted:
  assumes "s \<in> set (get_default_query # map tpl_sql get_fallback_templates)"
  shows "\<exists>c. sanitize_sql U s = Inr c"
  using assms monthly_category_sql_accepted [of U] channel_sql_accepted [of U]
    region_sql_accepted [of U] customer_segment_sql_accepted [of U] default_sql_accepted [of U]
  unfolding get_fallback_templates_def by auto

lemma engine_calls_try:
  "s \<in> set (engine_calls (try_generated_sql U env data client q)) \<Longrightarrow>
     \<exists>response. validate_and_sanitize_sql U response = Inr s"
  by (auto simp: try_generated_sql_def Let_def split: sum.splits)

lemma engine_calls_sources:
  assumes "s \<in> set (engine_calls (process_user_query U env q))"
  shows "(\<exists>response. validate_and_sanitize_sql U response = Inr s)
     \<or> s = fst (find_best_template U q)"
proof (cases "sales_data env")
  case None
  with assms show ?thesis by (simp add: process_user_query_def)
next
  case (Some data)
  show ?thesis
  proof (cases "the_llm_client env")
    case None
    with Some assms show ?thesis
      by (simp add: process_user_query_def Let_def split_beta)
  next
    case (Some client)
    with \<open>sales_data env = Some data\<close> assms
    have "s \<in> set (engine_calls (try_generated_sql U env data client q))
        \<or> s = fst (find_best_template U q)"
      by (auto simp: process_user_query_def Let_def split_beta split: if_splits)
    then show ?thesis using engine_calls_try by blast
  qed
qed

text \<open>
  C8: for every text \<open>find_best_template\<close> returns a pair whose query is the default
  query or the \<open>sql\<close> field of one of the four templates of the registry, and
  \<open>is_sql_safe\<close> accepts that query; every query that \<open>process_user_query\<close> hands to
  \<open>execute_sql_query\<close> is a value returned by \<open>validate_and_sanitize_sql\<close> or the query
  returned by \<open>find_best_template\<close>.
\<close>

theorem engine_queries_are_validated:
  "fst (find_best_template U q) \<in> set (get_default_query # map tpl_sql get_fallback_templates)
   \<and> is_sql_safe U (fst (find_best_template U q)) = (True, None)
   \<and> (\<forall>s\<in>set (engine_calls (process_user_query U env q)).
         (\<exists>response. validate_and_sanitize_sql U response = Inr s)
         \<or> s = fst (find_best_template U q))"
proof -
  have m: "fst (find_best_template U q)
      \<in> set (get_default_query # map tpl_sql get_fallback_templates)"
    unfolding find_best_template_def by (rule select_template_source)
  then obtain c where "sanitize_sql U (fst (find_best_template U q)) = Inr c"
    using prevalidated_sql_accepted by blast
  then have "is_sql_safe U (fst (find_best_template U q)) = (True, None)"
    by (simp add: is_sql_safe_def)
  with m show ?thesis using engine_calls_sources by blast
qed

theorem engine_queries_are_validated_witness:
  "engine_calls (process_user_query caseless_db no_rows_environment (ascii ''hello''))
     = [ascii ''SELECT 1'', fst (find_best_template caseless_db (ascii ''hello''))]
   \<and> ((\<exists>response. validate_and_sanitize_sql caseless_db response = Inr (ascii ''SELECT 1''))
      \<or> ascii ''SELECT 1'' = fst (find_best_template caseless_db (ascii ''hello'')))
   \<and> is_sql_safe caseless_db (fst (find_best_template caseless_db (ascii ''hello'')))
      = (True, None)"
proof -
  have e: "engine_calls (process_user_query caseless_db no_rows_environment (ascii ''hello''))
      = [ascii ''SELECT 1'', fst (find_best_template caseless_db (ascii ''hello''))]"
    by (simp add: process_user_query_def try_generated_sql_def no_rows_environment_def
        failing_summary_client_def select_one_validated execute_sql_query_def
        no_rows_result_def df_empty_def split_beta)
  show ?thesis
    using engine_queries_are_validated
      [of caseless_db "ascii ''hello''" no_rows_environment]
    unfolding e by simp
qed

end
